theory Spec2Isabelle
  imports Main "HOL-Library.Sublist"
begin

section \<open>Reference resolver: \<open>parseIssueInput\<close> (src/lib/core.js, lines 10-36)\<close>

text \<open>
  JavaScript strings are modelled as \<open>string\<close> (character lists). A JavaScript number
  is a double; \<open>js_number\<close> holds the values that \<open>parseInt\<close> can return for a run of
  decimal digits captured by \<open>(\d+)\<close>, the only texts it is applied to: an integer or
  \<open>Infinity\<close>.
\<close>

datatype js_number = Finite int | Infinity

definition isDigit :: "char \<Rightarrow> bool" where
  "isDigit c = (c \<in> set ''0123456789'')"

definition digitValue :: "char \<Rightarrow> nat" where
  "digitValue c = of_char c - 48"

text \<open>The mathematical value of a run of decimal digits.\<close>

definition decimal :: "string \<Rightarrow> nat" where
  "decimal ds = foldl (\<lambda>acc c. 10 * acc + digitValue c) 0 ds"

text \<open>The number of binary digits of a natural number.\<close>

fun bitLength :: "nat \<Rightarrow> nat" where
  "bitLength n = (if n = 0 then 0 else Suc (bitLength (n div 2)))"

declare bitLength.simps [simp del]

text \<open>
  The Number value of a natural number: the nearest double. Below \<open>2^53\<close> every
  integer is a double. Above, a double has 53 significant binary digits: the value is cut
  to its leading 53 digits \<open>q\<close>, and rounded up when the rest \<open>r\<close> is more than half a
  unit of the last kept digit, or exactly half with \<open>q\<close> odd (ties go to the even
  significand). A result that reaches \<open>2^1024\<close> is \<open>Infinity\<close>.
\<close>

definition toNumber :: "nat \<Rightarrow> js_number" where
  "toNumber n =
     (if n < 2 ^ 53 then Finite (int n)
      else
        let e = bitLength n - 53;
            q = n div 2 ^ e;
            r = n mod 2 ^ e;
            half = 2 ^ (e - 1);
            m = (if half < r \<or> (r = half \<and> odd q) then q + 1 else q)
        in if 2 ^ 1024 \<le> m * 2 ^ e then Infinity else Finite (int (m * 2 ^ e)))"

text \<open>
  \<open>parseInt(ds, 10)\<close> on a run of decimal digits: the Number value of the run's
  mathematical value. (For a run of more than 20 significant digits the language lets an
  implementation replace the digits after the twentieth by zeros before rounding; the
  model rounds the exact value.)
\<close>

definition parseInt :: "string \<Rightarrow> js_number" where
  "parseInt ds = toNumber (decimal ds)"

text \<open>
  \<open>shortPattern = /^([^\/]+)\/([^#]+)#(\d+)$/\<close>. The pattern is anchored at both
  ends. Group 1 is a run without a slash that must be followed by a slash, so it is the
  text before the first slash; group 2 is a run without a hash that must be followed by a
  hash, so it is the text between that slash and the next hash; group 3 is the rest, which
  must be one or more digits. Both runs must be non-empty (\<open>+\<close>).
\<close>

definition shortMatch :: "string \<Rightarrow> (string \<times> string \<times> string) option" where
  "shortMatch s =
     (let g1 = takeWhile (\<lambda>c. c \<noteq> CHR ''/'') s;
          r1 = dropWhile (\<lambda>c. c \<noteq> CHR ''/'') s
      in if g1 = [] \<or> r1 = [] then None
         else
           let r = tl r1;
               g2 = takeWhile (\<lambda>c. c \<noteq> CHR ''#'') r;
               r2 = dropWhile (\<lambda>c. c \<noteq> CHR ''#'') r
           in if g2 = [] \<or> r2 = [] then None
              else
                let g3 = tl r2
                in if g3 \<noteq> [] \<and> list_all isDigit g3 then Some (g1, g2, g3) else None)"

text \<open>
  \<open>urlPattern = /github\.com\/([^\/]+)\/([^\/]+)\/issues\/(\d+)/\<close>. The pattern is
  not anchored: \<open>String.prototype.match\<close> returns the match at the leftmost position
  where one exists. \<open>urlMatchAt\<close> is the attempt at the start of a string: the literal
  host, two non-empty runs without a slash each followed by a slash, the literal
  \<open>issues/\<close>, and the longest non-empty run of digits (\<open>\d+\<close> is greedy and nothing
  follows it).
\<close>

definition urlMatchAt :: "string \<Rightarrow> (string \<times> string \<times> string) option" where
  "urlMatchAt s =
     (if \<not> prefix ''github.com/'' s then None
      else
        let r0 = drop (length ''github.com/'') s;
            g1 = takeWhile (\<lambda>c. c \<noteq> CHR ''/'') r0;
            r1 = dropWhile (\<lambda>c. c \<noteq> CHR ''/'') r0
        in if g1 = [] \<or> r1 = [] then None
           else
             let r = tl r1;
                 g2 = takeWhile (\<lambda>c. c \<noteq> CHR ''/'') r;
                 r2 = dropWhile (\<lambda>c. c \<noteq> CHR ''/'') r
             in if g2 = [] \<or> \<not> prefix ''/issues/'' r2 then None
                else
                  let g3 = takeWhile isDigit (drop (length ''/issues/'') r2)
                  in if g3 = [] then None else Some (g1, g2, g3))"

fun urlMatch :: "string \<Rightarrow> (string \<times> string \<times> string) option" where
  "urlMatch [] = urlMatchAt []"
| "urlMatch (c # cs) =
     (case urlMatchAt (c # cs) of
        Some m \<Rightarrow> Some m
      | None \<Rightarrow> urlMatch cs)"

record issue_ref =
  owner :: string
  repo :: string
  issue_number :: js_number

text \<open>The short pattern is tried first, then the URL pattern; \<open>None\<close> is \<open>null\<close>.\<close>

definition parseIssueInput :: "string \<Rightarrow> issue_ref option" where
  "parseIssueInput issueInput =
     (case shortMatch issueInput of
        Some (g1, g2, g3) \<Rightarrow>
          Some \<lparr>owner = g1, repo = g2, issue_number = parseInt g3\<rparr>
      | None \<Rightarrow>
          (case urlMatch issueInput of
             Some (g1, g2, g3) \<Rightarrow>
               Some \<lparr>owner = g1, repo = g2, issue_number = parseInt g3\<rparr>
           | None \<Rightarrow> None))"

subsection \<open>The two input forms, stated as decompositions of the text\<close>

text \<open>
  The compact form \<open>ns/name#id\<close>: the namespace has no slash, the name has no hash,
  the id is one or more decimal digits.
\<close>

definition compact_form :: "string \<Rightarrow> string \<Rightarrow> string \<Rightarrow> string \<Rightarrow> bool" where
  "compact_form s ns name ds \<longleftrightarrow>
     s = ns @ ''/'' @ name @ ''#'' @ ds \<and>
     ns \<noteq> [] \<and> CHR ''/'' \<notin> set ns \<and>
     name \<noteq> [] \<and> CHR ''#'' \<notin> set name \<and>
     ds \<noteq> [] \<and> list_all isDigit ds"

definition is_compact :: "string \<Rightarrow> bool" where
  "is_compact s \<longleftrightarrow> (\<exists>ns name ds. compact_form s ns name ds)"

text \<open>
  The address form as the spec words it: a path segment \<open>/ns/name/issues/id\<close> anywhere
  in the text, whatever stands before it.
\<close>

definition path_segment :: "string \<Rightarrow> string \<Rightarrow> string \<Rightarrow> string \<Rightarrow> bool" where
  "path_segment s ns name ds \<longleftrightarrow>
     (\<exists>pre post. s = pre @ ''/'' @ ns @ ''/'' @ name @ ''/issues/'' @ ds @ post) \<and>
     ns \<noteq> [] \<and> CHR ''/'' \<notin> set ns \<and>
     name \<noteq> [] \<and> CHR ''/'' \<notin> set name \<and>
     ds \<noteq> [] \<and> list_all isDigit ds"

text \<open>The address form as the code's pattern has it: the host literal comes first.\<close>

definition address_form :: "string \<Rightarrow> string \<Rightarrow> string \<Rightarrow> string \<Rightarrow> string \<Rightarrow> string \<Rightarrow> bool" where
  "address_form s pre ns name ds post \<longleftrightarrow>
     s = pre @ ''github.com/'' @ ns @ ''/'' @ name @ ''/issues/'' @ ds @ post \<and>
     ns \<noteq> [] \<and> CHR ''/'' \<notin> set ns \<and>
     name \<noteq> [] \<and> CHR ''/'' \<notin> set name \<and>
     ds \<noteq> [] \<and> list_all isDigit ds"


section \<open>Completion propagator (src/lib/core.js, lines 81-279)\<close>

subsection \<open>Data\<close>

text \<open>
  An error value thrown by a store call carries an optional numeric \<open>status\<close> (the
  HTTP status of a failed request) and a message; \<open>new Error(msg)\<close> has no status.
\<close>

datatype js_error = JsError (status: "int option") (message: string)

record summary =
  total :: int
  completed :: int
  percent_completed :: int

text \<open>
  The fields of a fetched issue that the code reads. \<open>sub_issues_summary\<close> is \<open>None\<close>
  when the field is \<open>null\<close> or \<open>undefined\<close>.
\<close>

record issue =
  title :: string
  state :: string
  sub_issues_summary :: "summary option"

record sub_issue =
  number :: int
  repository_url :: string

record counts =
  processed :: nat
  closed :: nat

text \<open>
  The four REST calls the code issues, with the parameters it passes. An owner is
  \<open>None\<close> when the value is \<open>undefined\<close> (see \<open>subOwner\<close>).
\<close>

datatype request =
    IssuesGet "string option" string int
  | ListSubIssues "string option" string int nat
  | IssuesUpdate "string option" string int string string
  | CreateComment "string option" string int string

text \<open>A logged call: the request and the error it threw, if any.\<close>

type_synonym event = "request \<times> js_error option"

text \<open>
  The remote store behind \<open>octokit.rest.issues\<close>: any state type with four operations,
  each returning its outcome and the next state.
\<close>

record 'st octokit =
  issues_get :: "'st \<Rightarrow> string option \<Rightarrow> string \<Rightarrow> int \<Rightarrow> (js_error + issue) \<times> 'st"
  issues_listSubIssues ::
    "'st \<Rightarrow> string option \<Rightarrow> string \<Rightarrow> int \<Rightarrow> nat \<Rightarrow> (js_error + sub_issue list) \<times> 'st"
  issues_update ::
    "'st \<Rightarrow> string option \<Rightarrow> string \<Rightarrow> int \<Rightarrow> string \<Rightarrow> string \<Rightarrow> js_error option \<times> 'st"
  issues_createComment ::
    "'st \<Rightarrow> string option \<Rightarrow> string \<Rightarrow> int \<Rightarrow> string \<Rightarrow> js_error option \<times> 'st"

text \<open>The state the traversal threads: the store and the log of the calls made so far.\<close>

record 'st world =
  store :: 'st
  calls :: "event list"

definition logged :: "'st world \<Rightarrow> 'st \<Rightarrow> request \<Rightarrow> js_error option \<Rightarrow> 'st world" where
  "logged w s rq err = \<lparr>store = s, calls = calls w @ [(rq, err)]\<rparr>"

text \<open>
  What \<open>console.log\<close> is given, without the colour codes: the indentation depth or the
  issue reference, and the values interpolated into the line.
\<close>

datatype line =
    IssueLine nat bool "string option" string int string
  | AlreadyClosed nat
  | NoSubIssues nat
  | SubIssuesRatio nat int int int
  | WouldClose nat
  | WouldBeClosed "string option" string int string
  | Closing nat
  | NowClosed "string option" string int string
  | KeepingOpen nat int int

subsection \<open>Template literals\<close>

fun string_of_nat :: "nat \<Rightarrow> string" where
  "string_of_nat n =
     (if n < 10 then [''0123456789'' ! n]
      else string_of_nat (n div 10) @ [''0123456789'' ! (n mod 10)])"

declare string_of_nat.simps [simp del]

definition string_of_int :: "int \<Rightarrow> string" where
  "string_of_int i =
     (if i < 0 then ''-'' @ string_of_nat (nat (- i)) else string_of_nat (nat i))"

definition string_of_owner :: "string option \<Rightarrow> string" where
  "string_of_owner ow = (case ow of None \<Rightarrow> ''undefined'' | Some s \<Rightarrow> s)"

subsection \<open>\<open>getIssue\<close> (lines 81-95)\<close>

definition not_found_message :: "string option \<Rightarrow> string \<Rightarrow> int \<Rightarrow> string" where
  "not_found_message ow rp n =
     ''Issue #'' @ string_of_int n @ '' not found in '' @ string_of_owner ow @ ''/'' @ rp"

definition getIssue ::
  "'st octokit \<Rightarrow> string option \<Rightarrow> string \<Rightarrow> int \<Rightarrow> 'st world \<Rightarrow> (js_error + issue) \<times> 'st world" where
  "getIssue octokit ow rp n w =
     (case issues_get octokit (store w) ow rp n of
        (Inr data, s) \<Rightarrow> (Inr data, logged w s (IssuesGet ow rp n) None)
      | (Inl error, s) \<Rightarrow>
          (if status error = Some 404
           then Inl (JsError None (not_found_message ow rp n))
           else Inl error,
           logged w s (IssuesGet ow rp n) (Some error)))"

subsection \<open>\<open>getSubIssues\<close> (lines 105-120)\<close>

definition getSubIssues ::
  "'st octokit \<Rightarrow> string option \<Rightarrow> string \<Rightarrow> int \<Rightarrow> 'st world \<Rightarrow>
   (js_error + sub_issue list) \<times> 'st world" where
  "getSubIssues octokit ow rp n w =
     (case issues_listSubIssues octokit (store w) ow rp n 100 of
        (Inr data, s) \<Rightarrow> (Inr data, logged w s (ListSubIssues ow rp n 100) None)
      | (Inl error, s) \<Rightarrow>
          (if status error = Some 404 then Inr [] else Inl error,
           logged w s (ListSubIssues ow rp n 100) (Some error)))"

subsection \<open>\<open>closeIssue\<close> (lines 131-146)\<close>

text \<open>The comment starts with the robot emoji, here as its four UTF-8 bytes.\<close>

definition robot :: string where
  "robot = [char_of (240::nat), char_of (159::nat), char_of (164::nat), char_of (150::nat)]"

definition closeIssue ::
  "'st octokit \<Rightarrow> string option \<Rightarrow> string \<Rightarrow> int \<Rightarrow> string \<Rightarrow> 'st world \<Rightarrow>
   js_error option \<times> 'st world" where
  "closeIssue octokit ow rp n reason w =
     (case issues_update octokit (store w) ow rp n ''closed'' ''completed'' of
        (Some error, s) \<Rightarrow>
          (Some error, logged w s (IssuesUpdate ow rp n ''closed'' ''completed'') (Some error))
      | (None, s) \<Rightarrow>
          (let w1 = logged w s (IssuesUpdate ow rp n ''closed'' ''completed'') None;
               body = robot @ '' Automatically closed: '' @ reason
           in case issues_createComment octokit (store w1) ow rp n body of
                (r, s1) \<Rightarrow> (r, logged w1 s1 (CreateComment ow rp n body) r)))"

subsection \<open>The container of a sub-issue (lines 221-222)\<close>

text \<open>
  \<open>split("/")\<close> cuts at every slash and keeps empty pieces; it never returns an empty
  array.
\<close>

fun split_slash :: "string \<Rightarrow> string list" where
  "split_slash [] = [[]]"
| "split_slash (c # cs) =
     (if c = CHR ''/'' then [] # split_slash cs
      else (case split_slash cs of
              [] \<Rightarrow> [[c]]
            | p # ps \<Rightarrow> (c # p) # ps))"

text \<open>
  \<open>slice(-2, -1)[0]\<close> is the last piece but one, and \<open>undefined\<close> when there is only
  one piece; \<open>pop()\<close> is the last piece.
\<close>

definition subOwner :: "sub_issue \<Rightarrow> string option" where
  "subOwner subIssue =
     (let parts = split_slash (repository_url subIssue)
      in if length parts < 2 then None else Some (parts ! (length parts - 2)))"

definition subRepo :: "sub_issue \<Rightarrow> string" where
  "subRepo subIssue = last (split_slash (repository_url subIssue))"

subsection \<open>\<open>processIssueRecursively\<close> (lines 159-279)\<close>

text \<open>
  The \<open>for\<close> loop of lines 219-236, over the call it makes for each sub-issue. An error
  thrown by one call leaves the loop; \<open>None\<close> is a call that does not return. The lines
  printed are collected in order.
\<close>

fun forEachSubIssue ::
  "(sub_issue \<Rightarrow> 'w \<Rightarrow> ((js_error + counts) \<times> 'w \<times> line list) option) \<Rightarrow>
   sub_issue list \<Rightarrow> counts \<Rightarrow> 'w \<Rightarrow> ((js_error + counts) \<times> 'w \<times> line list) option" where
  "forEachSubIssue body [] totals w = Some (Inr totals, w, [])"
| "forEachSubIssue body (subIssue # rest) totals w =
     (case body subIssue w of
        None \<Rightarrow> None
      | Some (Inl e, w1, out1) \<Rightarrow> Some (Inl e, w1, out1)
      | Some (Inr result, w1, out1) \<Rightarrow>
          (case forEachSubIssue body rest
                  \<lparr>processed = processed totals + processed result,
                   closed = closed totals + closed result\<rparr> w1 of
             None \<Rightarrow> None
           | Some (r, w2, out2) \<Rightarrow> Some (r, w2, out1 @ out2)))"

text \<open>\<open>updatedSummary && updatedSummary.percent_completed === 100\<close>\<close>

definition complete :: "issue \<Rightarrow> bool" where
  "complete updatedIssue =
     (case sub_issues_summary updatedIssue of
        None \<Rightarrow> False
      | Some updatedSummary \<Rightarrow> percent_completed updatedSummary = 100)"

text \<open>
  Lines 238-278: the re-fetch of the issue after the loop and the decision to close it.
  \<open>issue\<close> is the first read, used for the title in the printed line only.
\<close>

definition closeIfComplete ::
  "'st octokit \<Rightarrow> string option \<Rightarrow> string \<Rightarrow> int \<Rightarrow> nat \<Rightarrow> bool \<Rightarrow> bool \<Rightarrow> issue \<Rightarrow> counts \<Rightarrow>
   'st world \<Rightarrow> (js_error + counts) \<times> 'st world \<times> line list" where
  "closeIfComplete octokit ow rp n depth dryRun verbose issue totals w =
     (case getIssue octokit ow rp n w of
        (Inl e, w1) \<Rightarrow> (Inl e, w1, [])
      | (Inr updatedIssue, w1) \<Rightarrow>
          (if complete updatedIssue then
             (if dryRun then
                (Inr (totals\<lparr>closed := closed totals + 1\<rparr>), w1,
                 [if verbose then WouldClose depth else WouldBeClosed ow rp n (title issue)])
              else
                (case closeIssue octokit ow rp n ''All sub-issues are now complete'' w1 of
                   (Some e, w2) \<Rightarrow>
                     (Inl e, w2, [if verbose then Closing depth else NowClosed ow rp n (title issue)])
                 | (None, w2) \<Rightarrow>
                     (Inr (totals\<lparr>closed := closed totals + 1\<rparr>), w2,
                      [if verbose then Closing depth else NowClosed ow rp n (title issue)])))
           else
             (Inr totals, w1,
              if verbose then
                [case sub_issues_summary updatedIssue of
                   None \<Rightarrow> KeepingOpen depth 0 0
                 | Some u \<Rightarrow> KeepingOpen depth (completed u) (total u)]
              else [])))"

text \<open>
  The function itself. The first argument bounds the depth of the recursion: the store
  decides what the sub-issues of an issue are, and nothing in the code stops a hierarchy
  that never ends. \<open>None\<close> is a run that needs a deeper recursion than the bound.
  The parameters \<open>owner\<close>, \<open>repo\<close> and \<open>issue_number\<close> are written \<open>ow\<close>, \<open>rp\<close>
  and \<open>n\<close> here and in the functions above (\<open>owner\<close> and \<open>repo\<close> name the fields of
  the resolver's result). \<open>depth\<close> is the level in the tree, a natural number, 0 at the
  root; it is used for the indentation of the printed lines only.
\<close>

fun processIssueRecursively ::
  "nat \<Rightarrow> 'st octokit \<Rightarrow> string option \<Rightarrow> string \<Rightarrow> int \<Rightarrow> nat \<Rightarrow> bool \<Rightarrow> bool \<Rightarrow> 'st world \<Rightarrow>
   ((js_error + counts) \<times> 'st world \<times> line list) option" where
  "processIssueRecursively 0 octokit ow rp n depth dryRun verbose w = None"
| "processIssueRecursively (Suc fuel) octokit ow rp n depth dryRun verbose w =
     (case getIssue octokit ow rp n w of
        (Inl e, w1) \<Rightarrow> Some (Inl e, w1, [])
      | (Inr issue, w1) \<Rightarrow>
          (let header =
                 (if verbose
                  then [IssueLine depth (state issue = ''closed'') ow rp n (title issue)]
                  else [])
           in if state issue = ''closed'' then
                Some (Inr \<lparr>processed = 0, closed = 0\<rparr>, w1,
                      header @ (if verbose then [AlreadyClosed depth] else []))
              else
                (case (case sub_issues_summary issue of
                         None \<Rightarrow> None
                       | Some s \<Rightarrow> if total s = 0 then None else Some s) of
                   None \<Rightarrow>
                     Some (Inr \<lparr>processed = 1, closed = 0\<rparr>, w1,
                           header @ (if verbose then [NoSubIssues depth] else []))
                 | Some subIssueSummary \<Rightarrow>
                     (let shown =
                            header @
                            (if verbose
                             then [SubIssuesRatio depth (completed subIssueSummary)
                                     (total subIssueSummary) (percent_completed subIssueSummary)]
                             else [])
                      in case getSubIssues octokit ow rp n w1 of
                           (Inl e, w2) \<Rightarrow> Some (Inl e, w2, shown)
                         | (Inr subIssues, w2) \<Rightarrow>
                             (case forEachSubIssue
                                     (\<lambda>subIssue.
                                        processIssueRecursively fuel octokit
                                          (subOwner subIssue) (subRepo subIssue) (number subIssue)
                                          (depth + 1) dryRun verbose)
                                     subIssues \<lparr>processed = 1, closed = 0\<rparr> w2 of
                                None \<Rightarrow> None
                              | Some (Inl e, w3, out) \<Rightarrow> Some (Inl e, w3, shown @ out)
                              | Some (Inr totals, w3, out) \<Rightarrow>
                                  (case closeIfComplete octokit ow rp n depth dryRun verbose
                                          issue totals w3 of
                                     (r, w4, out') \<Rightarrow> Some (r, w4, shown @ out @ out')))))))"

declare processIssueRecursively.simps(2) [simp del]

subsection \<open>Reading the log of calls\<close>

fun is_get :: "request \<Rightarrow> bool" where
  "is_get (IssuesGet ow rp n) = True"
| "is_get rq = False"

fun is_list :: "request \<Rightarrow> bool" where
  "is_list (ListSubIssues ow rp n per_page) = True"
| "is_list rq = False"

fun is_mutation :: "request \<Rightarrow> bool" where
  "is_mutation (IssuesUpdate ow rp n st reason) = True"
| "is_mutation (CreateComment ow rp n body) = True"
| "is_mutation rq = False"

text \<open>What a run returns and leaves behind, without the lines it printed.\<close>

definition outcome :: "('a \<times> 'w \<times> line list) option \<Rightarrow> ('a \<times> 'w) option" where
  "outcome run = map_option (\<lambda>(r, w, out). (r, w)) run"

text \<open>
  A failed call ends the traversal, except a sub-issue listing that failed with status
  404, which \<open>getSubIssues\<close> turns into an empty list.
\<close>

fun aborting :: "event \<Rightarrow> bool" where
  "aborting (rq, None) = False"
| "aborting (ListSubIssues ow rp n per_page, Some e) = (status e \<noteq> Some 404)"
| "aborting (rq, Some e) = True"

text \<open>
  The error a failed call surfaces as: the descriptive error of \<open>getIssue\<close> for a fetch
  that failed with status 404, the store's own error otherwise.
\<close>

fun surfaced :: "event \<Rightarrow> js_error option" where
  "surfaced (IssuesGet ow rp n, Some e) =
     Some (if status e = Some 404 then JsError None (not_found_message ow rp n) else e)"
| "surfaced (rq, err) = err"

text \<open>
  How the calls of a run relate to its result: a run that returns has made no aborting
  call; a run that throws has made exactly one, its last, and throws what that call
  surfaces as.
\<close>

fun ends_as :: "js_error + 'a \<Rightarrow> event list \<Rightarrow> bool" where
  "ends_as (Inr r) evs = list_all (\<lambda>ev. \<not> aborting ev) evs"
| "ends_as (Inl e) evs =
     (evs \<noteq> [] \<and> list_all (\<lambda>ev. \<not> aborting ev) (butlast evs) \<and>
      aborting (last evs) \<and> surfaced (last evs) = Some e)"

definition traced :: "'st world \<Rightarrow> js_error + 'a \<Rightarrow> 'st world \<Rightarrow> bool" where
  "traced w r w' \<longleftrightarrow> (\<exists>evs. calls w' = calls w @ evs \<and> ends_as r evs)"

text \<open>
  In a sequence of requests, every sub-issue listing asks for a page of 100, comes right
  after the fetch of the same issue, and is not followed by a further listing.
\<close>

fun single_listing :: "request list \<Rightarrow> bool" where
  "single_listing [] = True"
| "single_listing [rq] = (\<not> is_list rq)"
| "single_listing (rq # rq' # rest) =
     (case rq' of
        ListSubIssues ow rp n per_page \<Rightarrow>
          rq = IssuesGet ow rp n \<and> per_page = 100 \<and> single_listing rest
      | _ \<Rightarrow> \<not> is_list rq \<and> single_listing (rq' # rest))"

text \<open>The number of fetches and the number of listings in a log.\<close>

definition gets :: "event list \<Rightarrow> nat" where
  "gets evs = length (filter (\<lambda>ev. is_get (fst ev)) evs)"

definition listings :: "event list \<Rightarrow> nat" where
  "listings evs = length (filter (\<lambda>ev. is_list (fst ev)) evs)"

text \<open>A store honours the page size when no listing returns more entries than asked.\<close>

definition honours_page_size :: "'st octokit \<Rightarrow> bool" where
  "honours_page_size octokit \<longleftrightarrow>
     (\<forall>s ow rp n per_page data s'.
        issues_listSubIssues octokit s ow rp n per_page = (Inr data, s') \<longrightarrow>
        length data \<le> per_page)"

text \<open>
  The invariant behind the bound on visited sub-issues: the calls a run adds are well
  formed in the sense of \<open>single_listing\<close> and start with a fetch; and if the store
  honours the page size, there are at most \<open>k\<close> fetches plus 101 for every listing, and
  the issues counted as processed are at most \<open>p0 + k\<close> plus 100 for every listing.
\<close>

definition visits_within ::
  "'st octokit \<Rightarrow> nat \<Rightarrow> nat \<Rightarrow> 'st world \<Rightarrow> js_error + counts \<Rightarrow> 'st world \<Rightarrow> bool" where
  "visits_within octokit k p0 w res w' \<longleftrightarrow>
     (\<exists>evs. calls w' = calls w @ evs \<and>
        single_listing (map fst evs) \<and>
        (evs = [] \<or> is_get (fst (hd evs))) \<and>
        (honours_page_size octokit \<longrightarrow>
           gets evs \<le> k + 101 * listings evs \<and>
           (\<forall>r. res = Inr r \<longrightarrow> processed r \<le> p0 + k + 100 * listings evs)))"

section \<open>An in-memory store\<close>

text \<open>
  A store to run the traversal on: issues by container and number, each with its title,
  its state and the keys of its sub-issues. The summary of an issue is computed from the
  states of its sub-issues when it is fetched, and is absent for an issue without
  sub-issues. A listing returns the first \<open>per_page\<close> sub-issues. An absent issue
  answers every call with status 404.
\<close>

type_synonym key = "string option \<times> string \<times> int"

record stored =
  stored_title :: string
  stored_state :: string
  sub_issue_keys :: "key list"

type_synonym memory = "(key \<times> stored) list"

definition not_found :: js_error where
  "not_found = JsError (Some 404) ''Not Found''"

definition is_closed :: "memory \<Rightarrow> key \<Rightarrow> bool" where
  "is_closed m k =
     (case map_of m k of None \<Rightarrow> False | Some it \<Rightarrow> stored_state it = ''closed'')"

definition summary_of :: "memory \<Rightarrow> key list \<Rightarrow> summary option" where
  "summary_of m ks =
     (if ks = [] then None
      else Some \<lparr>total = int (length ks),
                 completed = int (length (filter (is_closed m) ks)),
                 percent_completed =
                   int (length (filter (is_closed m) ks)) * 100 div int (length ks)\<rparr>)"

definition sub_issue_of :: "key \<Rightarrow> sub_issue" where
  "sub_issue_of k =
     (case k of (ow, rp, n) \<Rightarrow>
        \<lparr>number = n,
         repository_url = ''https://api.github.com/repos/'' @ string_of_owner ow @ ''/'' @ rp\<rparr>)"

definition mem_get ::
  "memory \<Rightarrow> string option \<Rightarrow> string \<Rightarrow> int \<Rightarrow> (js_error + issue) \<times> memory" where
  "mem_get m ow rp n =
     (case map_of m (ow, rp, n) of
        None \<Rightarrow> (Inl not_found, m)
      | Some it \<Rightarrow>
          (Inr \<lparr>title = stored_title it, state = stored_state it,
                sub_issues_summary = summary_of m (sub_issue_keys it)\<rparr>, m))"

definition mem_listSubIssues ::
  "memory \<Rightarrow> string option \<Rightarrow> string \<Rightarrow> int \<Rightarrow> nat \<Rightarrow> (js_error + sub_issue list) \<times> memory" where
  "mem_listSubIssues m ow rp n per_page =
     (case map_of m (ow, rp, n) of
        None \<Rightarrow> (Inl not_found, m)
      | Some it \<Rightarrow> (Inr (map sub_issue_of (take per_page (sub_issue_keys it))), m))"

definition mem_update ::
  "memory \<Rightarrow> string option \<Rightarrow> string \<Rightarrow> int \<Rightarrow> string \<Rightarrow> string \<Rightarrow> js_error option \<times> memory" where
  "mem_update m ow rp n st reason =
     (case map_of m (ow, rp, n) of
        None \<Rightarrow> (Some not_found, m)
      | Some it \<Rightarrow>
          (None,
           map (\<lambda>(k, i). if k = (ow, rp, n) then (k, i\<lparr>stored_state := st\<rparr>) else (k, i)) m))"

definition mem_createComment ::
  "memory \<Rightarrow> string option \<Rightarrow> string \<Rightarrow> int \<Rightarrow> string \<Rightarrow> js_error option \<times> memory" where
  "mem_createComment m ow rp n body =
     (case map_of m (ow, rp, n) of
        None \<Rightarrow> (Some not_found, m)
      | Some it \<Rightarrow> (None, m))"

definition memory_store :: "memory octokit" where
  "memory_store =
     \<lparr>issues_get = mem_get, issues_listSubIssues = mem_listSubIssues,
      issues_update = mem_update, issues_createComment = mem_createComment\<rparr>"

definition start :: "'st \<Rightarrow> 'st world" where
  "start s = \<lparr>store = s, calls = []\<rparr>"

text \<open>A store in which every call fails with the same error.\<close>

definition failing_store :: "js_error \<Rightarrow> unit octokit" where
  "failing_store e =
     \<lparr>issues_get = (\<lambda>s ow rp n. (Inl e, s)),
      issues_listSubIssues = (\<lambda>s ow rp n per_page. (Inl e, s)),
      issues_update = (\<lambda>s ow rp n st reason. (Some e, s)),
      issues_createComment = (\<lambda>s ow rp n body. (Some e, s))\<rparr>"

text \<open>
  A store with an open issue number 1 whose summary says \<open>k\<close> of \<open>k\<close> complete; every
  other number is a closed issue; the sub-issues of an issue are the numbers from 2 to
  \<open>k + 1\<close>, of which a listing returns the first \<open>per_page\<close>.
\<close>

definition flat_store :: "nat \<Rightarrow> unit octokit" where
  "flat_store k =
     \<lparr>issues_get = (\<lambda>s ow rp n.
        (Inr (if n = 1
              then \<lparr>title = ''Root'', state = ''open'',
                    sub_issues_summary =
                      Some \<lparr>total = int k, completed = int k, percent_completed = 100\<rparr>\<rparr>
              else \<lparr>title = ''Sub'', state = ''closed'', sub_issues_summary = None\<rparr>), s)),
      issues_listSubIssues = (\<lambda>s ow rp n per_page.
        (Inr (take per_page
               (map (\<lambda>i. \<lparr>number = int i, repository_url = ''o/r''\<rparr>) [2..<2 + k])), s)),
      issues_update = (\<lambda>s ow rp n st reason. (None, s)),
      issues_createComment = (\<lambda>s ow rp n body. (None, s))\<rparr>"

subsection \<open>Hierarchies\<close>

text \<open>An open root with one closed sub-issue.\<close>

definition one_closed_child :: memory where
  "one_closed_child =
     [((Some ''owner'', ''repo'', 1),
         \<lparr>stored_title = ''Parent'', stored_state = ''open'',
          sub_issue_keys = [(Some ''owner'', ''repo'', 2)]\<rparr>),
      ((Some ''owner'', ''repo'', 2),
         \<lparr>stored_title = ''Child'', stored_state = ''closed'', sub_issue_keys = []\<rparr>)]"

text \<open>An open root with two closed sub-issues, each in a container of its own.\<close>

definition cross_repo :: memory where
  "cross_repo =
     [((Some ''owner'', ''repo'', 1),
         \<lparr>stored_title = ''Parent'', stored_state = ''open'',
          sub_issue_keys = [(Some ''org1'', ''repo1'', 5), (Some ''org2'', ''repo2'', 10)]\<rparr>),
      ((Some ''org1'', ''repo1'', 5),
         \<lparr>stored_title = ''Cross-repo sub 1'', stored_state = ''closed'', sub_issue_keys = []\<rparr>),
      ((Some ''org2'', ''repo2'', 10),
         \<lparr>stored_title = ''Cross-repo sub 2'', stored_state = ''closed'', sub_issue_keys = []\<rparr>)]"

text \<open>
  Three levels: an open root, its open sub-issue, and that one's closed sub-issue. The
  root's summary says 0 of 1 until the middle issue is closed.
\<close>

definition three_levels :: memory where
  "three_levels =
     [((Some ''owner'', ''repo'', 1),
         \<lparr>stored_title = ''Level 0'', stored_state = ''open'',
          sub_issue_keys = [(Some ''owner'', ''repo'', 2)]\<rparr>),
      ((Some ''owner'', ''repo'', 2),
         \<lparr>stored_title = ''Level 1'', stored_state = ''open'',
          sub_issue_keys = [(Some ''owner'', ''repo'', 3)]\<rparr>),
      ((Some ''owner'', ''repo'', 3),
         \<lparr>stored_title = ''Level 2'', stored_state = ''closed'', sub_issue_keys = []\<rparr>)]"

text \<open>
  An open root with two sub-issues: the first is absent from the store, the second is an
  open leaf.
\<close>

definition dangling_child :: memory where
  "dangling_child =
     [((Some ''owner'', ''repo'', 1),
         \<lparr>stored_title = ''Parent'', stored_state = ''open'',
          sub_issue_keys = [(Some ''owner'', ''repo'', 999), (Some ''owner'', ''repo'', 3)]\<rparr>),
      ((Some ''owner'', ''repo'', 3),
         \<lparr>stored_title = ''Leaf'', stored_state = ''open'', sub_issue_keys = []\<rparr>)]"

text \<open>
  An open root with two sub-issues, a closed one and an open leaf: one of two complete,
  50 percent, before and after the traversal.
\<close>

definition half_done :: memory where
  "half_done =
     [((Some ''owner'', ''repo'', 1),
         \<lparr>stored_title = ''Parent'', stored_state = ''open'',
          sub_issue_keys = [(Some ''owner'', ''repo'', 2), (Some ''owner'', ''repo'', 3)]\<rparr>),
      ((Some ''owner'', ''repo'', 2),
         \<lparr>stored_title = ''Done'', stored_state = ''closed'', sub_issue_keys = []\<rparr>),
      ((Some ''owner'', ''repo'', 3),
         \<lparr>stored_title = ''Pending'', stored_state = ''open'', sub_issue_keys = []\<rparr>)]"

text \<open>A hierarchy in which every issue is closed.\<close>

definition all_closed :: memory where
  "all_closed =
     [((Some ''owner'', ''repo'', 1),
         \<lparr>stored_title = ''Parent'', stored_state = ''closed'',
          sub_issue_keys = [(Some ''owner'', ''repo'', 2)]\<rparr>),
      ((Some ''owner'', ''repo'', 2),
         \<lparr>stored_title = ''Child'', stored_state = ''closed'', sub_issue_keys = []\<rparr>)]"

text \<open>
  A store that answers every fetch with the same issue, every listing with no sub-issues,
  and accepts every mutation.
\<close>

definition fixed_store :: "issue \<Rightarrow> unit octokit" where
  "fixed_store i =
     \<lparr>issues_get = (\<lambda>s ow rp n. (Inr i, s)),
      issues_listSubIssues = (\<lambda>s ow rp n per_page. (Inr [], s)),
      issues_update = (\<lambda>s ow rp n st reason. (None, s)),
      issues_createComment = (\<lambda>s ow rp n body. (None, s))\<rparr>"

section \<open>Properties of the resolver\<close>

subsection \<open>The matchers compute the decompositions\<close>

lemma takeWhile_sep:
  "c \<notin> set xs \<Longrightarrow> takeWhile (\<lambda>x. x \<noteq> c) (xs @ c # ys) = xs"
  by (induction xs) auto

lemma dropWhile_sep:
  "c \<notin> set xs \<Longrightarrow> dropWhile (\<lambda>x. x \<noteq> c) (xs @ c # ys) = c # ys"
  by (induction xs) auto

lemma split_at_sep:
  "dropWhile (\<lambda>x. x \<noteq> c) s \<noteq> [] \<Longrightarrow>
   s = takeWhile (\<lambda>x. x \<noteq> c) s @ c # tl (dropWhile (\<lambda>x. x \<noteq> c) s)"
proof -
  assume ne: "dropWhile (\<lambda>x. x \<noteq> c) s \<noteq> []"
  then have "hd (dropWhile (\<lambda>x. x \<noteq> c) s) = c"
    using hd_dropWhile [of "\<lambda>x. x \<noteq> c" s] by simp
  with ne have "dropWhile (\<lambda>x. x \<noteq> c) s = c # tl (dropWhile (\<lambda>x. x \<noteq> c) s)"
    by (cases "dropWhile (\<lambda>x. x \<noteq> c) s") auto
  then show ?thesis
    using takeWhile_dropWhile_id [of "\<lambda>x. x \<noteq> c" s] by simp
qed

lemma takeWhile_no_sep: "c \<notin> set (takeWhile (\<lambda>x. x \<noteq> c) s)"
  by (induction s) auto

lemma shortMatch_complete:
  assumes "compact_form s ns name ds"
  shows "shortMatch s = Some (ns, name, ds)"
proof -
  from assms have s: "s = ns @ CHR ''/'' # (name @ CHR ''#'' # ds)"
    and ns: "ns \<noteq> []" "CHR ''/'' \<notin> set ns"
    and name: "name \<noteq> []" "CHR ''#'' \<notin> set name"
    and ds: "ds \<noteq> []" "list_all isDigit ds"
    by (simp_all add: compact_form_def)
  show ?thesis
    unfolding shortMatch_def s
    by (simp add: takeWhile_sep dropWhile_sep ns name ds Let_def)
qed

lemma shortMatch_sound:
  assumes "shortMatch s = Some (ns, name, ds)"
  shows "compact_form s ns name ds"
proof -
  let ?r1 = "dropWhile (\<lambda>c. c \<noteq> CHR ''/'') s"
  let ?r2 = "dropWhile (\<lambda>c. c \<noteq> CHR ''#'') (tl ?r1)"
  from assms have g1: "ns = takeWhile (\<lambda>c. c \<noteq> CHR ''/'') s" "ns \<noteq> []" "?r1 \<noteq> []"
    and g2: "name = takeWhile (\<lambda>c. c \<noteq> CHR ''#'') (tl ?r1)" "name \<noteq> []" "?r2 \<noteq> []"
    and g3: "ds = tl ?r2" "ds \<noteq> []" "list_all isDigit ds"
    by (auto simp: shortMatch_def Let_def split: if_splits)
  have "s = ns @ CHR ''/'' # tl ?r1"
    using split_at_sep [OF g1(3)] g1(1) by simp
  moreover have "tl ?r1 = name @ CHR ''#'' # ds"
    using split_at_sep [OF g2(3)] g2(1) g3(1) by simp
  ultimately have "s = ns @ ''/'' @ name @ ''#'' @ ds" by simp
  moreover have "CHR ''/'' \<notin> set ns" unfolding g1(1) by (rule takeWhile_no_sep)
  moreover have "CHR ''#'' \<notin> set name" unfolding g2(1) by (rule takeWhile_no_sep)
  ultimately show ?thesis
    using g1(2) g2(2) g3(2,3) by (simp add: compact_form_def)
qed

lemma is_compact_iff: "is_compact s \<longleftrightarrow> shortMatch s \<noteq> None"
proof
  assume "is_compact s"
  then obtain ns name ds where "compact_form s ns name ds"
    unfolding is_compact_def by blast
  then show "shortMatch s \<noteq> None"
    by (simp add: shortMatch_complete)
next
  assume "shortMatch s \<noteq> None"
  then obtain ns name ds where "shortMatch s = Some (ns, name, ds)"
    by (cases "shortMatch s") auto
  then show "is_compact s"
    unfolding is_compact_def using shortMatch_sound by blast
qed


lemma takeWhile_digits:
  "list_all isDigit ds \<Longrightarrow> takeWhile isDigit (ds @ post) = ds @ takeWhile isDigit post"
  by (simp add: takeWhile_append2 list_all_iff)

lemma urlMatchAt_here:
  assumes "address_form s [] ns name ds post"
  shows "urlMatchAt s = Some (ns, name, ds @ takeWhile isDigit post)"
proof -
  from assms
  have s: "s = ''github.com/'' @ (ns @ CHR ''/'' # (name @ CHR ''/'' # (''issues/'' @ ds @ post)))"
    and ns: "ns \<noteq> []" "CHR ''/'' \<notin> set ns"
    and name: "name \<noteq> []" "CHR ''/'' \<notin> set name"
    and ds: "ds \<noteq> []" "list_all isDigit ds"
    by (simp_all add: address_form_def)
  show ?thesis
    unfolding urlMatchAt_def s
    by (simp add: takeWhile_sep dropWhile_sep takeWhile_digits ns name ds Let_def)
qed



lemma urlMatch_here:
  "urlMatchAt s = Some m \<Longrightarrow> urlMatch s = Some m"
  by (cases s) simp_all

lemma urlMatch_skip:
  "\<forall>i<length pre. urlMatchAt (drop i (pre @ r)) = None \<Longrightarrow> urlMatch (pre @ r) = urlMatch r"
proof (induction pre)
  case Nil
  then show ?case by simp
next
  case (Cons c pre)
  from Cons.prems have "urlMatchAt (c # pre @ r) = None" by auto
  moreover from Cons.prems have "\<forall>i<length pre. urlMatchAt (drop i (pre @ r)) = None"
    by (metis Suc_less_eq append_Cons drop_Suc_Cons length_Cons)
  ultimately show ?case using Cons.IH by simp
qed



lemma urlMatchAt_no_host: "\<not> prefix ''github.com/'' t \<Longrightarrow> urlMatchAt t = None"
  by (simp add: urlMatchAt_def)














lemmas resolver_eval =
  parseIssueInput_def shortMatch_def urlMatchAt_def isDigit_def parseInt_def decimal_def
  toNumber_def digitValue_def Let_def



text \<open>
  Claim C7, amended. A text \<open>pre @ github.com/ns/name/issues/ds @ post\<close> resolves to
  \<open>ns\<close>, \<open>name\<close> and the number of \<open>ds\<close>, whatever \<open>pre\<close> is (nothing, an
  \<open>http://\<close> or an \<open>https://\<close> prefix, or any other text in which the host literal
  does not start earlier), provided that \<open>ds\<close> is the whole run of digits (\<open>post\<close>
  does not go on with a digit) and that the text is not a compact reference, which is
  tried first.
\<close>

theorem resolve_address:
  assumes form: "address_form s pre ns name ds post"
    and leftmost: "\<forall>i<length pre. \<not> prefix ''github.com/'' (drop i s)"
    and maximal: "post = [] \<or> \<not> isDigit (hd post)"
    and not_compact: "\<not> is_compact s"
  shows "parseIssueInput s = Some \<lparr>owner = ns, repo = name, issue_number = parseInt ds\<rparr>"
proof -
  define r where "r = ''github.com/'' @ ns @ ''/'' @ name @ ''/issues/'' @ ds @ post"
  from form have s: "s = pre @ r" and here: "address_form r [] ns name ds post"
    by (simp_all add: address_form_def r_def)
  from maximal have "takeWhile isDigit post = []"
    by (cases post) auto
  with here have at: "urlMatchAt r = Some (ns, name, ds)"
    using urlMatchAt_here by fastforce
  from leftmost have "\<forall>i<length pre. urlMatchAt (drop i (pre @ r)) = None"
    unfolding s by (simp add: urlMatchAt_no_host)
  then have "urlMatch s = urlMatch r"
    unfolding s by (rule urlMatch_skip)
  with at have "urlMatch s = Some (ns, name, ds)"
    by (simp add: urlMatch_here)
  moreover from not_compact have "shortMatch s = None"
    using is_compact_iff [of s] by blast
  ultimately show ?thesis
    by (simp add: parseIssueInput_def)
qed

theorem resolve_address_witness:
  "address_form ''https://github.com/octocat/hello-world/issues/42''
     ''https://'' ''octocat'' ''hello-world'' ''42'' [] \<and>
   \<not> is_compact ''https://github.com/octocat/hello-world/issues/42'' \<and>
   parseIssueInput ''https://github.com/octocat/hello-world/issues/42'' =
     Some \<lparr>owner = ''octocat'', repo = ''hello-world'', issue_number = Finite 42\<rparr> \<and>
   parseIssueInput ''http://github.com/octocat/hello-world/issues/42'' =
     Some \<lparr>owner = ''octocat'', repo = ''hello-world'', issue_number = Finite 42\<rparr> \<and>
   parseIssueInput ''github.com/octocat/hello-world/issues/42'' =
     Some \<lparr>owner = ''octocat'', repo = ''hello-world'', issue_number = Finite 42\<rparr>"
proof -
  let ?path = "''github.com/octocat/hello-world/issues/42''"
  have v: "parseInt ''42'' = Finite 42"
    by (simp add: parseInt_def decimal_def toNumber_def digitValue_def)
  have f: "address_form (p @ ?path) p ''octocat'' ''hello-world'' ''42'' []" for p
    by (simp add: address_form_def isDigit_def)
  have m: "[] = [] \<or> \<not> isDigit (hd [])" by simp
  have l1: "\<forall>i<length ''https://''. \<not> prefix ''github.com/'' (drop i (''https://'' @ ?path))"
    by (simp add: All_less_Suc)
  have l2: "\<forall>i<length ''http://''. \<not> prefix ''github.com/'' (drop i (''http://'' @ ?path))"
    by (simp add: All_less_Suc)
  have l3: "\<forall>i<length []. \<not> prefix ''github.com/'' (drop i ([] @ ?path))"
    by simp
  have c1: "\<not> is_compact (''https://'' @ ?path)"
    by (simp add: is_compact_iff shortMatch_def)
  have c2: "\<not> is_compact (''http://'' @ ?path)"
    by (simp add: is_compact_iff shortMatch_def)
  have c3: "\<not> is_compact ([] @ ?path)"
    by (simp add: is_compact_iff shortMatch_def)
  from resolve_address [OF f l1 m c1] resolve_address [OF f l2 m c2]
    resolve_address [OF f l3 m c3] f [of "''https://''"] c1 v
  show ?thesis by simp
qed

text \<open>
  Claim C7, as stated, fails: the pattern requires the literal host \<open>github.com/\<close>
  in front of the path, so an address on another host has the path segment and still
  resolves to \<open>None\<close> (the repository's tests expect exactly this for
  \<open>gitlab.com\<close>).
\<close>

theorem address_needs_host_counterexample:
  "path_segment ''https://gitlab.com/owner/repo/issues/123'' ''owner'' ''repo'' ''123'' \<and>
   parseIssueInput ''https://gitlab.com/owner/repo/issues/123'' = None"
proof -
  have "''https://gitlab.com/owner/repo/issues/123'' =
      ''https://gitlab.com'' @ ''/'' @ ''owner'' @ ''/'' @ ''repo'' @ ''/issues/'' @ ''123'' @ []"
    by simp
  then have "\<exists>pre post. ''https://gitlab.com/owner/repo/issues/123'' =
      pre @ ''/'' @ ''owner'' @ ''/'' @ ''repo'' @ ''/issues/'' @ ''123'' @ post"
    by blast
  then have "path_segment ''https://gitlab.com/owner/repo/issues/123'' ''owner'' ''repo'' ''123''"
    unfolding path_segment_def by (simp add: isDigit_def)
  moreover have "parseIssueInput ''https://gitlab.com/owner/repo/issues/123'' = None"
    by (simp add: resolver_eval)
  ultimately show ?thesis by simp
qed

section \<open>Properties of the propagator\<close>

subsection \<open>The recursion bound\<close>

text \<open>
  A run that returns within a bound returns the same within every larger bound: the bound
  never changes a result, and \<open>None\<close> only ever means that the hierarchy is deeper than
  the bound.
\<close>

lemma forEachSubIssue_mono:
  assumes "\<And>subIssue w y. f subIssue w = Some y \<Longrightarrow> g subIssue w = Some y"
  shows "forEachSubIssue f subIssues totals w = Some y \<Longrightarrow>
         forEachSubIssue g subIssues totals w = Some y"
proof (induction subIssues arbitrary: totals w y)
  case Nil
  then show ?case by simp
next
  case (Cons subIssue rest)
  from Cons.prems obtain r1 w1 out1 where first: "f subIssue w = Some (r1, w1, out1)"
    by (cases "f subIssue w") auto
  then have same: "g subIssue w = Some (r1, w1, out1)" by (rule assms)
  show ?case
  proof (cases r1)
    case (Inl e)
    with first same Cons.prems show ?thesis by auto
  next
    case (Inr result)
    let ?t = "\<lparr>processed = processed totals + processed result,
        closed = closed totals + closed result\<rparr>"
    from Inr first Cons.prems obtain z where
      inner: "forEachSubIssue f rest ?t w1 = Some z"
      by (cases "forEachSubIssue f rest ?t w1") auto
    then have "forEachSubIssue g rest ?t w1 = Some z" by (rule Cons.IH)
    with inner Inr first same Cons.prems show ?thesis by auto
  qed
qed

lemma more_fuel:
  "processIssueRecursively fuel octokit ow rp n depth dryRun verbose w = Some y \<Longrightarrow>
   processIssueRecursively (Suc fuel) octokit ow rp n depth dryRun verbose w = Some y"
proof (induction fuel arbitrary: ow rp n depth w y)
  case 0
  then show ?case by simp
next
  case (Suc fuel)
  let ?f = "\<lambda>k subIssue. processIssueRecursively k octokit
      (subOwner subIssue) (subRepo subIssue) (number subIssue) (depth + 1) dryRun verbose"
  have loop: "forEachSubIssue (?f (Suc fuel)) subIssues totals w2 = Some z"
    if "forEachSubIssue (?f fuel) subIssues totals w2 = Some z" for subIssues totals w2 z
    using that by (rule forEachSubIssue_mono [rotated]) (rule Suc.IH)
  obtain fetched w1 where get: "getIssue octokit ow rp n w = (fetched, w1)"
    by (cases "getIssue octokit ow rp n w")
  show ?case
  proof (cases fetched)
    case (Inl e)
    with get Suc.prems show ?thesis
      by (simp add: processIssueRecursively.simps(2))
  next
    case (Inr issue)
    show ?thesis
    proof (cases "state issue = ''closed'' \<or> sub_issues_summary issue = None \<or>
        (\<exists>s. sub_issues_summary issue = Some s \<and> total s = 0)")
      case True
      with get Inr Suc.prems show ?thesis
        by (auto simp: processIssueRecursively.simps(2) Let_def)
    next
      case False
      then obtain s where s: "state issue \<noteq> ''closed''" "sub_issues_summary issue = Some s"
          "total s \<noteq> 0"
        by auto
      obtain l w2 where listed: "getSubIssues octokit ow rp n w1 = (l, w2)"
        by (cases "getSubIssues octokit ow rp n w1")
      show ?thesis
      proof (cases l)
        case (Inl e)
        with get Inr s listed Suc.prems show ?thesis
          by (simp add: processIssueRecursively.simps(2) Let_def)
      next
        case sub: (Inr subIssues)
        let ?t = "\<lparr>processed = 1, closed = 0\<rparr>"
        from get Inr s listed sub Suc.prems obtain z where
          inner: "forEachSubIssue (?f fuel) subIssues ?t w2 = Some z"
          by (cases "forEachSubIssue (?f fuel) subIssues ?t w2")
            (auto simp: processIssueRecursively.simps(2) Let_def)
        from loop [OF inner] inner get Inr s listed sub Suc.prems show ?thesis
          by (simp add: processIssueRecursively.simps(2) [of "Suc fuel"]
              processIssueRecursively.simps(2) [of fuel] Let_def)
      qed
    qed
  qed
qed

lemma enough_fuel:
  "processIssueRecursively fuel octokit ow rp n depth dryRun verbose w = Some y \<Longrightarrow>
   processIssueRecursively (fuel + k) octokit ow rp n depth dryRun verbose w = Some y"
  by (induction k) (auto intro: more_fuel)

subsection \<open>Base cases\<close>

lemma getIssue_ok:
  "fst (issues_get octokit (store w) ow rp n) = Inr issue \<Longrightarrow>
   getIssue octokit ow rp n w =
     (Inr issue, logged w (snd (issues_get octokit (store w) ow rp n)) (IssuesGet ow rp n) None)"
  by (cases "issues_get octokit (store w) ow rp n") (simp add: getIssue_def)

text \<open>
  Claim C3. When the fetched issue is closed, the call returns \<open>{processed: 0, closed: 0}\<close>
  and the fetch is the only store call it makes: the sub-issues are not listed, none is
  visited, nothing is mutated. This holds for every depth argument, in both modes, and
  with any positive bound on the recursion. A hierarchy in which every issue is closed
  has a closed root, so the traversal of it ends there.
\<close>

theorem closed_item_is_skipped:
  assumes "fst (issues_get octokit (store w) ow rp n) = Inr issue"
    and "state issue = ''closed''"
  shows "\<exists>w' out.
    processIssueRecursively (Suc fuel) octokit ow rp n depth dryRun verbose w =
      Some (Inr \<lparr>processed = 0, closed = 0\<rparr>, w', out) \<and>
    calls w' = calls w @ [(IssuesGet ow rp n, None)] \<and>
    store w' = snd (issues_get octokit (store w) ow rp n)"
  using assms
  by (simp add: processIssueRecursively.simps(2) getIssue_ok logged_def Let_def)

text \<open>
  Claim C4. When the fetched issue is open and has no summary, or a summary whose total
  is 0, the call returns \<open>{processed: 1, closed: 0}\<close> and the fetch is the only store
  call it makes: no recursion, no mutation.
\<close>

theorem leaf_item_is_counted:
  assumes "fst (issues_get octokit (store w) ow rp n) = Inr issue"
    and "state issue \<noteq> ''closed''"
    and "sub_issues_summary issue = None \<or>
         (\<exists>s. sub_issues_summary issue = Some s \<and> total s = 0)"
  shows "\<exists>w' out.
    processIssueRecursively (Suc fuel) octokit ow rp n depth dryRun verbose w =
      Some (Inr \<lparr>processed = 1, closed = 0\<rparr>, w', out) \<and>
    calls w' = calls w @ [(IssuesGet ow rp n, None)] \<and>
    store w' = snd (issues_get octokit (store w) ow rp n)"
  using assms
  by (auto simp: processIssueRecursively.simps(2) getIssue_ok logged_def Let_def)


lemmas memory_defs =
  memory_store_def mem_get_def mem_listSubIssues_def mem_update_def mem_createComment_def
  summary_of_def is_closed_def sub_issue_of_def string_of_owner_def start_def not_found_def

lemmas run_defs =
  processIssueRecursively.simps(2) getIssue_def getSubIssues_def closeIssue_def
  closeIfComplete_def complete_def logged_def subOwner_def subRepo_def Let_def

theorem closed_item_is_skipped_witness:
  "map_option (\<lambda>(r, w, out). (r, calls w))
     (processIssueRecursively (Suc 0) memory_store (Some ''owner'') ''repo'' 1 7 False True
        (start all_closed)) =
   Some (Inr \<lparr>processed = 0, closed = 0\<rparr>, [(IssuesGet (Some ''owner'') ''repo'' 1, None)])"
proof -
  let ?root = "\<lparr>title = ''Parent'', state = ''closed'',
    sub_issues_summary = Some \<lparr>total = 1, completed = 1, percent_completed = 100\<rparr>\<rparr>"
  have fetched: "fst (issues_get memory_store (store (start all_closed)) (Some ''owner'') ''repo'' 1)
      = Inr ?root"
    by (simp add: memory_defs all_closed_def)
  have is_closed: "state ?root = ''closed''" by simp
  from closed_item_is_skipped [OF fetched is_closed, of 0 7 False True]
  show ?thesis by (auto simp: start_def)
qed

theorem leaf_item_is_counted_witness:
  "map_option (\<lambda>(r, w, out). (r, calls w))
     (processIssueRecursively (Suc 0) memory_store (Some ''owner'') ''repo'' 3 0 False False
        (start dangling_child)) =
   Some (Inr \<lparr>processed = 1, closed = 0\<rparr>, [(IssuesGet (Some ''owner'') ''repo'' 3, None)]) \<and>
   map_option (\<lambda>(r, w, out). (r, calls w))
     (processIssueRecursively (Suc 0)
        (fixed_store \<lparr>title = ''Leaf'', state = ''open'',
           sub_issues_summary = Some \<lparr>total = 0, completed = 0, percent_completed = 0\<rparr>\<rparr>)
        (Some ''owner'') ''repo'' 1 0 False False (start ())) =
   Some (Inr \<lparr>processed = 1, closed = 0\<rparr>, [(IssuesGet (Some ''owner'') ''repo'' 1, None)])"
proof -
  let ?leaf = "\<lparr>title = ''Leaf'', state = ''open'', sub_issues_summary = None\<rparr>"
  let ?empty = "\<lparr>title = ''Leaf'', state = ''open'',
    sub_issues_summary = Some \<lparr>total = 0, completed = 0, percent_completed = 0\<rparr>\<rparr>"
  have f1: "fst (issues_get memory_store (store (start dangling_child)) (Some ''owner'') ''repo'' 3)
      = Inr ?leaf"
    by (simp add: memory_defs dangling_child_def)
  have o1: "state ?leaf \<noteq> ''closed''" by simp
  have s1: "sub_issues_summary ?leaf = None \<or>
      (\<exists>s. sub_issues_summary ?leaf = Some s \<and> total s = 0)" by simp
  have f2: "fst (issues_get (fixed_store ?empty) (store (start ())) (Some ''owner'') ''repo'' 1)
      = Inr ?empty"
    by (simp add: fixed_store_def)
  have o2: "state ?empty \<noteq> ''closed''" by simp
  have s2: "sub_issues_summary ?empty = None \<or>
      (\<exists>s. sub_issues_summary ?empty = Some s \<and> total s = 0)" by simp
  from leaf_item_is_counted [OF f1 o1 s1, of 0 0 False False]
       leaf_item_is_counted [OF f2 o2 s2, of 0 0 False False]
  show ?thesis by (auto simp: start_def)
qed

subsection \<open>The decision to close\<close>

text \<open>
  Claim C1. Take an issue whose first fetch shows it open with a summary whose total is
  not 0, whose sub-issues were listed, and whose sub-issues have all been processed with
  the counts \<open>totals\<close>. The call then fetches the issue again and decides on that second
  read alone. If the second read has a summary whose \<open>percent_completed\<close> is 100,
  \<open>closed\<close> is one more than the sub-issues' sum in both modes: in a dry run nothing
  follows the fetch; in a live run the update (state closed, reason completed) follows,
  and after it the comment, each once, and the call throws what either of them throws.
  If the second read has no summary, or one whose \<open>percent_completed\<close> is any other
  number (below 100 in particular), nothing follows the fetch and the counts are the
  sub-issues' own: the issue adds 0 to \<open>closed\<close>.
\<close>

theorem closure_decision:
  assumes first: "getIssue octokit ow rp n w = (Inr issue, w1)"
    and opened: "state issue \<noteq> ''closed''"
    and summary: "sub_issues_summary issue = Some s" "total s \<noteq> 0"
    and listed: "getSubIssues octokit ow rp n w1 = (Inr subIssues, w2)"
    and children:
      "forEachSubIssue
         (\<lambda>subIssue. processIssueRecursively fuel octokit
            (subOwner subIssue) (subRepo subIssue) (number subIssue) (depth + 1) dryRun verbose)
         subIssues \<lparr>processed = 1, closed = 0\<rparr> w2 = Some (Inr totals, w3, out)"
    and refetch: "issues_get octokit (store w3) ow rp n = (Inr updatedIssue, s4)"
  shows "\<exists>res w' lines.
    processIssueRecursively (Suc fuel) octokit ow rp n depth dryRun verbose w =
      Some (res, w', lines) \<and>
    (if \<exists>u. sub_issues_summary updatedIssue = Some u \<and> percent_completed u = 100 then
       (if dryRun then
          res = Inr (totals\<lparr>closed := closed totals + 1\<rparr>) \<and>
          w' = \<lparr>store = s4, calls = calls w3 @ [(IssuesGet ow rp n, None)]\<rparr>
        else
          (case issues_update octokit s4 ow rp n ''closed'' ''completed'' of
             (Some e, s5) \<Rightarrow>
               res = Inl e \<and>
               w' = \<lparr>store = s5,
                     calls = calls w3 @
                       [(IssuesGet ow rp n, None),
                        (IssuesUpdate ow rp n ''closed'' ''completed'', Some e)]\<rparr>
           | (None, s5) \<Rightarrow>
               (case issues_createComment octokit s5 ow rp n
                       (robot @ '' Automatically closed: All sub-issues are now complete'') of
                  (c, s6) \<Rightarrow>
                    res = (case c of
                             None \<Rightarrow> Inr (totals\<lparr>closed := closed totals + 1\<rparr>)
                           | Some e \<Rightarrow> Inl e) \<and>
                    w' = \<lparr>store = s6,
                          calls = calls w3 @
                            [(IssuesGet ow rp n, None),
                             (IssuesUpdate ow rp n ''closed'' ''completed'', None),
                             (CreateComment ow rp n
                                (robot @ '' Automatically closed: All sub-issues are now complete''),
                              c)]\<rparr>)))
     else
       res = Inr totals \<and>
       w' = \<lparr>store = s4, calls = calls w3 @ [(IssuesGet ow rp n, None)]\<rparr>)"
proof -
  have decided: "complete updatedIssue \<longleftrightarrow>
      (\<exists>u. sub_issues_summary updatedIssue = Some u \<and> percent_completed u = 100)"
    by (cases "sub_issues_summary updatedIssue") (simp_all add: complete_def)
  show ?thesis
    unfolding decided [symmetric]
    using assms
    by (auto simp: processIssueRecursively.simps(2) closeIfComplete_def getIssue_def
        closeIssue_def logged_def Let_def split: prod.splits option.splits)
qed


theorem closure_decision_witness:
  "map_option (\<lambda>(r, w, out). (r, map fst (calls w)))
     (processIssueRecursively (Suc (Suc (Suc 0))) memory_store (Some ''owner'') ''repo'' 1 0
        False False (start three_levels)) =
   Some (Inr \<lparr>processed = 2, closed = 2\<rparr>,
     [IssuesGet (Some ''owner'') ''repo'' 1, ListSubIssues (Some ''owner'') ''repo'' 1 100,
      IssuesGet (Some ''owner'') ''repo'' 2, ListSubIssues (Some ''owner'') ''repo'' 2 100,
      IssuesGet (Some ''owner'') ''repo'' 3,
      IssuesGet (Some ''owner'') ''repo'' 2,
      IssuesUpdate (Some ''owner'') ''repo'' 2 ''closed'' ''completed'',
      CreateComment (Some ''owner'') ''repo'' 2
        (robot @ '' Automatically closed: All sub-issues are now complete''),
      IssuesGet (Some ''owner'') ''repo'' 1,
      IssuesUpdate (Some ''owner'') ''repo'' 1 ''closed'' ''completed'',
      CreateComment (Some ''owner'') ''repo'' 1
        (robot @ '' Automatically closed: All sub-issues are now complete'')]) \<and>
   map_option (\<lambda>(r, w, out). (r, map fst (calls w)))
     (processIssueRecursively (Suc (Suc 0)) memory_store (Some ''owner'') ''repo'' 1 0
        True False (start one_closed_child)) =
   Some (Inr \<lparr>processed = 1, closed = 1\<rparr>,
     [IssuesGet (Some ''owner'') ''repo'' 1, ListSubIssues (Some ''owner'') ''repo'' 1 100,
      IssuesGet (Some ''owner'') ''repo'' 2,
      IssuesGet (Some ''owner'') ''repo'' 1]) \<and>
   map_option (\<lambda>(r, w, out). (r, map fst (calls w)))
     (processIssueRecursively (Suc (Suc 0)) memory_store (Some ''owner'') ''repo'' 1 0
        False False (start half_done)) =
   Some (Inr \<lparr>processed = 2, closed = 0\<rparr>,
     [IssuesGet (Some ''owner'') ''repo'' 1, ListSubIssues (Some ''owner'') ''repo'' 1 100,
      IssuesGet (Some ''owner'') ''repo'' 2, IssuesGet (Some ''owner'') ''repo'' 3,
      IssuesGet (Some ''owner'') ''repo'' 1])"
proof -
  have live: "map_option (\<lambda>(r, w, out). (r, map fst (calls w)))
     (processIssueRecursively (Suc (Suc (Suc 0))) memory_store (Some ''owner'') ''repo'' 1 0
        False False (start three_levels)) =
   Some (Inr \<lparr>processed = 2, closed = 2\<rparr>,
     [IssuesGet (Some ''owner'') ''repo'' 1, ListSubIssues (Some ''owner'') ''repo'' 1 100,
      IssuesGet (Some ''owner'') ''repo'' 2, ListSubIssues (Some ''owner'') ''repo'' 2 100,
      IssuesGet (Some ''owner'') ''repo'' 3,
      IssuesGet (Some ''owner'') ''repo'' 2,
      IssuesUpdate (Some ''owner'') ''repo'' 2 ''closed'' ''completed'',
      CreateComment (Some ''owner'') ''repo'' 2
        (robot @ '' Automatically closed: All sub-issues are now complete''),
      IssuesGet (Some ''owner'') ''repo'' 1,
      IssuesUpdate (Some ''owner'') ''repo'' 1 ''closed'' ''completed'',
      CreateComment (Some ''owner'') ''repo'' 1
        (robot @ '' Automatically closed: All sub-issues are now complete'')])"
  proof -
    let ?root = "\<lparr>title = ''Level 0'', state = ''open'',
      sub_issues_summary = Some \<lparr>total = 1, completed = 0, percent_completed = 0\<rparr>\<rparr>"
    let ?s = "\<lparr>total = 1, completed = 0, percent_completed = 0\<rparr>"
    let ?w1 = "\<lparr>store = three_levels, calls = [(IssuesGet (Some ''owner'') ''repo'' 1, None)]\<rparr>"
    let ?subs = "[\<lparr>number = 2, repository_url = ''https://api.github.com/repos/owner/repo''\<rparr>]"
    let ?w2 = "\<lparr>store = three_levels,
      calls = [(IssuesGet (Some ''owner'') ''repo'' 1, None),
               (ListSubIssues (Some ''owner'') ''repo'' 1 100, None)]\<rparr>"
    let ?loop = "forEachSubIssue
       (\<lambda>subIssue. processIssueRecursively (Suc (Suc 0)) memory_store
          (subOwner subIssue) (subRepo subIssue) (number subIssue) (0 + 1) False False)
       ?subs \<lparr>processed = 1, closed = 0\<rparr> ?w2"
    let ?updated = "\<lparr>title = ''Level 0'', state = ''open'',
      sub_issues_summary = Some \<lparr>total = 1, completed = 1, percent_completed = 100\<rparr>\<rparr>"
    have first: "getIssue memory_store (Some ''owner'') ''repo'' 1 (start three_levels) = (Inr ?root, ?w1)"
      by (simp add: run_defs memory_defs three_levels_def)
    have opened: "state ?root \<noteq> ''closed''" by simp
    have summary: "sub_issues_summary ?root = Some ?s" "total ?s \<noteq> 0" by simp_all
    have listed: "getSubIssues memory_store (Some ''owner'') ''repo'' 1 ?w1 = (Inr ?subs, ?w2)"
      by (simp add: run_defs memory_defs three_levels_def)
    have "\<exists>w3 out. ?loop = Some (Inr \<lparr>processed = 2, closed = 1\<rparr>, w3, out) \<and>
        map fst (calls w3) =
          [IssuesGet (Some ''owner'') ''repo'' 1, ListSubIssues (Some ''owner'') ''repo'' 1 100,
           IssuesGet (Some ''owner'') ''repo'' 2, ListSubIssues (Some ''owner'') ''repo'' 2 100,
           IssuesGet (Some ''owner'') ''repo'' 3,
           IssuesGet (Some ''owner'') ''repo'' 2,
           IssuesUpdate (Some ''owner'') ''repo'' 2 ''closed'' ''completed'',
           CreateComment (Some ''owner'') ''repo'' 2
             (robot @ '' Automatically closed: All sub-issues are now complete'')] \<and>
        issues_get memory_store (store w3) (Some ''owner'') ''repo'' 1 = (Inr ?updated, store w3) \<and>
        fst (issues_update memory_store (store w3) (Some ''owner'') ''repo'' 1 ''closed'' ''completed'')
          = None \<and>
        fst (issues_createComment memory_store
              (snd (issues_update memory_store (store w3) (Some ''owner'') ''repo'' 1
                     ''closed'' ''completed''))
              (Some ''owner'') ''repo'' 1
              (robot @ '' Automatically closed: All sub-issues are now complete'')) = None"
      by (simp add: run_defs memory_defs three_levels_def split_slash.simps)
    then obtain w3 out where
      children: "?loop = Some (Inr \<lparr>processed = 2, closed = 1\<rparr>, w3, out)"
      and log: "map fst (calls w3) =
          [IssuesGet (Some ''owner'') ''repo'' 1, ListSubIssues (Some ''owner'') ''repo'' 1 100,
           IssuesGet (Some ''owner'') ''repo'' 2, ListSubIssues (Some ''owner'') ''repo'' 2 100,
           IssuesGet (Some ''owner'') ''repo'' 3,
           IssuesGet (Some ''owner'') ''repo'' 2,
           IssuesUpdate (Some ''owner'') ''repo'' 2 ''closed'' ''completed'',
           CreateComment (Some ''owner'') ''repo'' 2
             (robot @ '' Automatically closed: All sub-issues are now complete'')]"
      and refetch: "issues_get memory_store (store w3) (Some ''owner'') ''repo'' 1
          = (Inr ?updated, store w3)"
      and update: "fst (issues_update memory_store (store w3) (Some ''owner'') ''repo'' 1
          ''closed'' ''completed'') = None"
      and comment: "fst (issues_createComment memory_store
              (snd (issues_update memory_store (store w3) (Some ''owner'') ''repo'' 1
                     ''closed'' ''completed''))
              (Some ''owner'') ''repo'' 1
              (robot @ '' Automatically closed: All sub-issues are now complete'')) = None"
      by (elim exE conjE) (rule that)
    have completed: "\<exists>u. sub_issues_summary ?updated = Some u \<and> percent_completed u = 100"
      by simp
    obtain s5 where updated: "issues_update memory_store (store w3) (Some ''owner'') ''repo'' 1
        ''closed'' ''completed'' = (None, s5)"
      using update by (metis prod.collapse)
    obtain s6 where commented: "issues_createComment memory_store s5 (Some ''owner'') ''repo'' 1
        (robot @ '' Automatically closed: All sub-issues are now complete'') = (None, s6)"
      using comment updated by (metis prod.collapse snd_conv)
    from closure_decision [OF first opened summary listed children refetch]
    obtain res w' lines where
      "processIssueRecursively (Suc (Suc (Suc 0))) memory_store (Some ''owner'') ''repo'' 1 0
         False False (start three_levels) = Some (res, w', lines)"
      and "res = Inr \<lparr>processed = 2, closed = 2\<rparr>"
      and "calls w' = calls w3 @
         [(IssuesGet (Some ''owner'') ''repo'' 1, None),
          (IssuesUpdate (Some ''owner'') ''repo'' 1 ''closed'' ''completed'', None),
          (CreateComment (Some ''owner'') ''repo'' 1
             (robot @ '' Automatically closed: All sub-issues are now complete''), None)]"
      using completed updated commented by auto
    with log show ?thesis by simp
qed
  have dry: "map_option (\<lambda>(r, w, out). (r, map fst (calls w)))
     (processIssueRecursively (Suc (Suc 0)) memory_store (Some ''owner'') ''repo'' 1 0
        True False (start one_closed_child)) =
   Some (Inr \<lparr>processed = 1, closed = 1\<rparr>,
     [IssuesGet (Some ''owner'') ''repo'' 1, ListSubIssues (Some ''owner'') ''repo'' 1 100,
      IssuesGet (Some ''owner'') ''repo'' 2,
      IssuesGet (Some ''owner'') ''repo'' 1])"
  proof -
    let ?m = one_closed_child
    let ?root = "\<lparr>title = ''Parent'', state = ''open'',
      sub_issues_summary = Some \<lparr>total = 1, completed = 1, percent_completed = 100\<rparr>\<rparr>"
    let ?s = "\<lparr>total = 1, completed = 1, percent_completed = 100\<rparr>"
    let ?sub = "\<lparr>number = 2, repository_url = ''https://api.github.com/repos/owner/repo''\<rparr>"
    let ?w1 = "\<lparr>store = ?m, calls = [(IssuesGet (Some ''owner'') ''repo'' 1, None)]\<rparr>"
    let ?w2 = "\<lparr>store = ?m,
      calls = [(IssuesGet (Some ''owner'') ''repo'' 1, None),
               (ListSubIssues (Some ''owner'') ''repo'' 1 100, None)]\<rparr>"
    let ?w3 = "\<lparr>store = ?m,
      calls = [(IssuesGet (Some ''owner'') ''repo'' 1, None),
               (ListSubIssues (Some ''owner'') ''repo'' 1 100, None),
               (IssuesGet (Some ''owner'') ''repo'' 2, None)]\<rparr>"
    have first: "getIssue memory_store (Some ''owner'') ''repo'' 1 (start ?m) = (Inr ?root, ?w1)"
      by (simp add: run_defs memory_defs one_closed_child_def)
    have opened: "state ?root \<noteq> ''closed''" by simp
    have summary: "sub_issues_summary ?root = Some ?s" "total ?s \<noteq> 0" by simp_all
    have listed: "getSubIssues memory_store (Some ''owner'') ''repo'' 1 ?w1 = (Inr [?sub], ?w2)"
      by (simp add: run_defs memory_defs one_closed_child_def)
    have children: "forEachSubIssue
        (\<lambda>subIssue. processIssueRecursively (Suc 0) memory_store
           (subOwner subIssue) (subRepo subIssue) (number subIssue) (0 + 1) True False)
        [?sub] \<lparr>processed = 1, closed = 0\<rparr> ?w2 =
        Some (Inr \<lparr>processed = 1, closed = 0\<rparr>, ?w3, [])"
      by (simp add: run_defs memory_defs one_closed_child_def)
    have refetch: "issues_get memory_store (store ?w3) (Some ''owner'') ''repo'' 1 = (Inr ?root, ?m)"
      by (simp add: memory_defs one_closed_child_def)
    have completed: "\<exists>u. sub_issues_summary ?root = Some u \<and> percent_completed u = 100"
      by simp
    from closure_decision [OF first opened summary listed children refetch] completed
    show ?thesis by auto
  qed
  have below: "map_option (\<lambda>(r, w, out). (r, map fst (calls w)))
     (processIssueRecursively (Suc (Suc 0)) memory_store (Some ''owner'') ''repo'' 1 0
        False False (start half_done)) =
   Some (Inr \<lparr>processed = 2, closed = 0\<rparr>,
     [IssuesGet (Some ''owner'') ''repo'' 1, ListSubIssues (Some ''owner'') ''repo'' 1 100,
      IssuesGet (Some ''owner'') ''repo'' 2, IssuesGet (Some ''owner'') ''repo'' 3,
      IssuesGet (Some ''owner'') ''repo'' 1])"
  proof -
    let ?m = half_done
    let ?s = "\<lparr>total = 2, completed = 1, percent_completed = 50\<rparr>"
    let ?root = "\<lparr>title = ''Parent'', state = ''open'', sub_issues_summary = Some ?s\<rparr>"
    let ?subs = "[\<lparr>number = 2, repository_url = ''https://api.github.com/repos/owner/repo''\<rparr>,
                  \<lparr>number = 3, repository_url = ''https://api.github.com/repos/owner/repo''\<rparr>]"
    let ?w1 = "\<lparr>store = ?m, calls = [(IssuesGet (Some ''owner'') ''repo'' 1, None)]\<rparr>"
    let ?w2 = "\<lparr>store = ?m,
      calls = [(IssuesGet (Some ''owner'') ''repo'' 1, None),
               (ListSubIssues (Some ''owner'') ''repo'' 1 100, None)]\<rparr>"
    let ?w3 = "\<lparr>store = ?m,
      calls = [(IssuesGet (Some ''owner'') ''repo'' 1, None),
               (ListSubIssues (Some ''owner'') ''repo'' 1 100, None),
               (IssuesGet (Some ''owner'') ''repo'' 2, None),
               (IssuesGet (Some ''owner'') ''repo'' 3, None)]\<rparr>"
    have first: "getIssue memory_store (Some ''owner'') ''repo'' 1 (start ?m) = (Inr ?root, ?w1)"
      by (simp add: run_defs memory_defs half_done_def)
    have opened: "state ?root \<noteq> ''closed''" by simp
    have summary: "sub_issues_summary ?root = Some ?s" "total ?s \<noteq> 0" by simp_all
    have listed: "getSubIssues memory_store (Some ''owner'') ''repo'' 1 ?w1 = (Inr ?subs, ?w2)"
      by (simp add: run_defs memory_defs half_done_def)
    have children: "forEachSubIssue
        (\<lambda>subIssue. processIssueRecursively (Suc 0) memory_store
           (subOwner subIssue) (subRepo subIssue) (number subIssue) (0 + 1) False False)
        ?subs \<lparr>processed = 1, closed = 0\<rparr> ?w2 =
        Some (Inr \<lparr>processed = 2, closed = 0\<rparr>, ?w3, [])"
      by (simp add: run_defs memory_defs half_done_def split_slash.simps)
    have refetch: "issues_get memory_store (store ?w3) (Some ''owner'') ''repo'' 1 = (Inr ?root, ?m)"
      by (simp add: memory_defs half_done_def)
    have pending: "\<not> (\<exists>u. sub_issues_summary ?root = Some u \<and> percent_completed u = 100)"
      by simp
    from closure_decision [OF first opened summary listed children refetch] pending
    show ?thesis by auto
  qed
  from live dry below show ?thesis by (intro conjI)
qed

subsection \<open>What the display options change\<close>

lemma outcome_None [simp]: "outcome run = None \<longleftrightarrow> run = None"
  by (simp add: outcome_def)

lemma outcome_of_None [simp]: "outcome None = None"
  by (simp add: outcome_def)

lemma None_eq_outcome [simp]: "None = outcome run \<longleftrightarrow> run = None"
  by (auto simp: outcome_def)

lemma outcome_Some [simp]: "outcome (Some (r, w, out)) = Some (r, w)"
  by (simp add: outcome_def)

lemma outcome_eq_Some: "outcome run = Some (r, w) \<longleftrightarrow> (\<exists>out. run = Some (r, w, out))"
  by (cases run) (auto simp: outcome_def)

lemma closeIfComplete_display:
  "(case closeIfComplete octokit ow rp n depth dryRun verbose issue totals w of
      (r, w', out) \<Rightarrow> (r, w')) =
   (case closeIfComplete octokit ow rp n depth' dryRun verbose' issue totals w of
      (r, w', out) \<Rightarrow> (r, w'))"
  by (simp add: closeIfComplete_def split: prod.splits sum.splits option.splits)

lemma forEachSubIssue_display:
  assumes "\<And>subIssue w. outcome (f subIssue w) = outcome (g subIssue w)"
  shows "outcome (forEachSubIssue f subIssues totals w) =
         outcome (forEachSubIssue g subIssues totals w)"
proof (induction subIssues arbitrary: totals w)
  case Nil
  show ?case by simp
next
  case (Cons subIssue rest)
  show ?case
  proof (cases "f subIssue w")
    case None
    with assms [of subIssue w] have "g subIssue w = None"
      by simp
    with None show ?thesis by simp
  next
    case (Some a)
    obtain r w1 out1 where a: "a = (r, w1, out1)" by (cases a)
    from Some a assms [of subIssue w] have "outcome (g subIssue w) = Some (r, w1)"
      by simp
    then obtain out1' where g: "g subIssue w = Some (r, w1, out1')"
      unfolding outcome_eq_Some by blast
    show ?thesis
    proof (cases r)
      case (Inl e)
      with Some a g show ?thesis by simp
    next
      case (Inr result)
      let ?t = "\<lparr>processed = processed totals + processed result,
          closed = closed totals + closed result\<rparr>"
      show ?thesis
      proof (cases "forEachSubIssue f rest ?t w1")
        case None
        with Cons.IH [of ?t w1] have "forEachSubIssue g rest ?t w1 = None" by simp
        with None Some a g Inr show ?thesis by simp
      next
        case inner: (Some b)
        obtain r2 w2 out2 where b: "b = (r2, w2, out2)" by (cases b)
        from inner b Cons.IH [of ?t w1] have "outcome (forEachSubIssue g rest ?t w1) = Some (r2, w2)"
          by simp
        then obtain out2' where "forEachSubIssue g rest ?t w1 = Some (r2, w2, out2')"
          unfolding outcome_eq_Some by blast
        with inner b Some a g Inr show ?thesis by simp
      qed
    qed
  qed
qed

lemma display_only:
  "outcome (processIssueRecursively fuel octokit ow rp n depth dryRun verbose w) =
   outcome (processIssueRecursively fuel octokit ow rp n depth' dryRun verbose' w)"
proof (induction fuel arbitrary: ow rp n depth depth' w)
  case 0
  show ?case by simp
next
  case (Suc fuel)
  let ?f = "\<lambda>d v subIssue. processIssueRecursively fuel octokit
      (subOwner subIssue) (subRepo subIssue) (number subIssue) (d + 1) dryRun v"
  have loop: "outcome (forEachSubIssue (?f depth verbose) subIssues totals w2) =
      outcome (forEachSubIssue (?f depth' verbose') subIssues totals w2)" for subIssues totals w2
    by (rule forEachSubIssue_display) (rule Suc.IH)
  show ?case
  proof (cases "getIssue octokit ow rp n w")
    case (Pair fetched w1)
    show ?thesis
    proof (cases fetched)
      case (Inl e)
      with Pair show ?thesis
        by (simp add: processIssueRecursively.simps(2))
    next
      case (Inr issue)
      show ?thesis
      proof (cases "state issue = ''closed'' \<or> sub_issues_summary issue = None \<or>
          (\<exists>s. sub_issues_summary issue = Some s \<and> total s = 0)")
        case True
        with Pair Inr show ?thesis
          by (auto simp: processIssueRecursively.simps(2) Let_def)
      next
        case False
        then obtain s where s: "state issue \<noteq> ''closed''" "sub_issues_summary issue = Some s"
            "total s \<noteq> 0"
          by auto
        show ?thesis
        proof (cases "getSubIssues octokit ow rp n w1")
          case listed: (Pair l w2)
          show ?thesis
          proof (cases l)
            case (Inl e)
            with Pair Inr s listed show ?thesis
              by (simp add: processIssueRecursively.simps(2) Let_def)
          next
            case sub: (Inr subIssues)
            let ?t = "\<lparr>processed = 1, closed = 0\<rparr>"
            show ?thesis
            proof (cases "forEachSubIssue (?f depth verbose) subIssues ?t w2")
              case None
              with loop [of subIssues ?t w2]
              have "forEachSubIssue (?f depth' verbose') subIssues ?t w2 = None" by simp
              with None Pair Inr s listed sub show ?thesis
                by (simp add: processIssueRecursively.simps(2) Let_def)
            next
              case (Some b)
              obtain r w3 out where b: "b = (r, w3, out)" by (cases b)
              from Some b loop [of subIssues ?t w2]
              have "outcome (forEachSubIssue (?f depth' verbose') subIssues ?t w2) = Some (r, w3)"
                by simp
              then obtain out' where
                other: "forEachSubIssue (?f depth' verbose') subIssues ?t w2 = Some (r, w3, out')"
                unfolding outcome_eq_Some by blast
              show ?thesis
              proof (cases r)
                case (Inl e)
                with Some b other Pair Inr s listed sub show ?thesis
                  by (simp add: processIssueRecursively.simps(2) Let_def)
              next
                case totals: (Inr totals)
                obtain r4 w4 out4 where
                  c1: "closeIfComplete octokit ow rp n depth dryRun verbose issue totals w3 =
                    (r4, w4, out4)"
                  by (cases "closeIfComplete octokit ow rp n depth dryRun verbose issue totals w3")
                obtain r5 w5 out5 where
                  c2: "closeIfComplete octokit ow rp n depth' dryRun verbose' issue totals w3 =
                    (r5, w5, out5)"
                  by (cases "closeIfComplete octokit ow rp n depth' dryRun verbose' issue totals w3")
                from closeIfComplete_display [of octokit ow rp n depth dryRun verbose issue
                    totals w3 depth' verbose'] c1 c2
                have same: "r5 = r4" "w5 = w4" by simp_all
                have "outcome (processIssueRecursively (Suc fuel) octokit ow rp n depth dryRun
                    verbose w) = Some (r4, w4)"
                  using Some b Pair Inr s listed sub totals c1
                  by (simp add: processIssueRecursively.simps(2) Let_def)
                moreover have "outcome (processIssueRecursively (Suc fuel) octokit ow rp n depth'
                    dryRun verbose' w) = Some (r4, w4)"
                  using other Pair Inr s listed sub totals c2 same
                  by (simp add: processIssueRecursively.simps(2) Let_def)
                ultimately show ?thesis by simp
              qed
            qed
          qed
        qed
      qed
    qed
  qed
qed

text \<open>
  Claim C9. Two runs from the same state with the same arguments, one verbose and one not,
  return the same result and leave the same store and the same log of calls, outcomes
  included; they differ in the lines they print only. The same holds for two runs that
  differ in \<open>depth\<close>.
\<close>

theorem verbose_changes_output_only:
  "outcome (processIssueRecursively fuel octokit ow rp n depth dryRun True w) =
   outcome (processIssueRecursively fuel octokit ow rp n depth dryRun False w)"
  by (rule display_only)




theorem verbose_changes_output_only_witness:
  "outcome (processIssueRecursively (Suc (Suc 0)) memory_store (Some ''owner'') ''repo'' 1 0
      False True (start one_closed_child)) =
   outcome (processIssueRecursively (Suc (Suc 0)) memory_store (Some ''owner'') ''repo'' 1 0
      False False (start one_closed_child)) \<and>
   map_option (\<lambda>(r, w, out). out)
     (processIssueRecursively (Suc (Suc 0)) memory_store (Some ''owner'') ''repo'' 1 0
        False True (start one_closed_child)) =
   Some [IssueLine 0 False (Some ''owner'') ''repo'' 1 ''Parent'', SubIssuesRatio 0 1 1 100,
         IssueLine 1 True (Some ''owner'') ''repo'' 2 ''Child'', AlreadyClosed 1, Closing 0] \<and>
   map_option (\<lambda>(r, w, out). out)
     (processIssueRecursively (Suc (Suc 0)) memory_store (Some ''owner'') ''repo'' 1 0
        False False (start one_closed_child)) =
   Some [NowClosed (Some ''owner'') ''repo'' 1 ''Parent'']"
proof -
  have "map_option (\<lambda>(r, w, out). out)
     (processIssueRecursively (Suc (Suc 0)) memory_store (Some ''owner'') ''repo'' 1 0
        False True (start one_closed_child)) =
   Some [IssueLine 0 False (Some ''owner'') ''repo'' 1 ''Parent'', SubIssuesRatio 0 1 1 100,
         IssueLine 1 True (Some ''owner'') ''repo'' 2 ''Child'', AlreadyClosed 1, Closing 0]"
    by (simp add: run_defs memory_defs one_closed_child_def)
  moreover have "map_option (\<lambda>(r, w, out). out)
     (processIssueRecursively (Suc (Suc 0)) memory_store (Some ''owner'') ''repo'' 1 0
        False False (start one_closed_child)) =
   Some [NowClosed (Some ''owner'') ''repo'' 1 ''Parent'']"
    by (simp add: run_defs memory_defs one_closed_child_def)
  ultimately show ?thesis
    using verbose_changes_output_only [of "Suc (Suc 0)" memory_store "Some ''owner''" "''repo''" 1 0
        False "start one_closed_child"]
    by simp
qed

subsection \<open>Failures of the store\<close>

lemma traced_step:
  assumes "traced w (Inr a) w1" and "traced w1 r w2"
  shows "traced w r w2"
proof -
  from assms obtain evs1 evs2 where
    1: "calls w1 = calls w @ evs1" "list_all (\<lambda>ev. \<not> aborting ev) evs1"
    and 2: "calls w2 = calls w1 @ evs2" "ends_as r evs2"
    by (auto simp: traced_def)
  have "ends_as r (evs1 @ evs2)"
  proof (cases r)
    case (Inl e)
    with 2 have "evs2 \<noteq> []" by simp
    with Inl 1 2 show ?thesis
      by (simp add: butlast_append)
  next
    case (Inr b)
    with 1 2 show ?thesis by simp
  qed
  with 1 2 show ?thesis by (auto simp: traced_def)
qed

lemma traced_refl: "traced w (Inr a) w"
  by (simp add: traced_def)

lemma traced_retag: "traced w (Inr a) w' \<Longrightarrow> traced w (Inr b) w'"
  by (simp add: traced_def)

lemma traced_rethrow:
  "traced w (Inl e :: js_error + 'a) w' \<Longrightarrow> traced w (Inl e :: js_error + 'b) w'"
  by (simp add: traced_def)

lemma getIssue_traced: "getIssue octokit ow rp n w = (r, w1) \<Longrightarrow> traced w r w1"
  by (auto simp: getIssue_def traced_def logged_def split: prod.splits sum.splits if_splits)

lemma getSubIssues_traced: "getSubIssues octokit ow rp n w = (r, w1) \<Longrightarrow> traced w r w1"
  by (auto simp: getSubIssues_def traced_def logged_def split: prod.splits sum.splits if_splits)

lemma closeIssue_traced:
  "closeIssue octokit ow rp n reason w = (r, w1) \<Longrightarrow>
   traced w (case r of None \<Rightarrow> Inr () | Some e \<Rightarrow> Inl e) w1"
  by (auto simp: closeIssue_def traced_def logged_def Let_def
      split: prod.splits option.splits)

lemma closeIfComplete_traced:
  assumes "closeIfComplete octokit ow rp n depth dryRun verbose issue totals w = (r, w', out)"
  shows "traced w r w'"
proof (cases "getIssue octokit ow rp n w")
  case (Pair fetched w1)
  then have g: "traced w fetched w1" by (rule getIssue_traced)
  show ?thesis
  proof (cases fetched)
    case (Inl e)
    with Pair assms g show ?thesis by (auto simp: closeIfComplete_def intro: traced_rethrow)
  next
    case (Inr updatedIssue)
    show ?thesis
    proof (cases "complete updatedIssue \<and> \<not> dryRun")
      case False
      with Pair Inr assms have "w' = w1" "\<exists>t. r = Inr t"
        by (auto simp: closeIfComplete_def split: if_splits)
      with g Inr show ?thesis by (auto intro: traced_retag)
    next
      case True
      obtain c w2 where c: "closeIssue octokit ow rp n ''All sub-issues are now complete'' w1
          = (c, w2)"
        by (cases "closeIssue octokit ow rp n ''All sub-issues are now complete'' w1")
      from closeIssue_traced [OF c]
      have "traced w1 r w2"
        using True Pair Inr assms c
        by (cases c) (auto simp: closeIfComplete_def traced_def)
      moreover from True Pair Inr assms c have "w' = w2"
        by (cases c) (auto simp: closeIfComplete_def)
      ultimately show ?thesis
        using g Inr by (auto intro: traced_step)
    qed
  qed
qed

lemma forEachSubIssue_traced:
  assumes body: "\<And>subIssue w r w' out. f subIssue w = Some (r, w', out) \<Longrightarrow> traced w r w'"
  shows "forEachSubIssue f subIssues totals w = Some (r, w', out) \<Longrightarrow> traced w r w'"
proof (induction subIssues arbitrary: totals w out)
  case Nil
  then show ?case by (auto simp: traced_refl)
next
  case (Cons subIssue rest)
  from Cons.prems obtain r1 w1 out1 where first: "f subIssue w = Some (r1, w1, out1)"
    by (cases "f subIssue w") auto
  from body [OF first] have t1: "traced w r1 w1" .
  show ?case
  proof (cases r1)
    case (Inl e)
    with first Cons.prems t1 show ?thesis by simp
  next
    case (Inr result)
    with first Cons.prems obtain out2 where
      "forEachSubIssue f rest \<lparr>processed = processed totals + processed result,
          closed = closed totals + closed result\<rparr> w1 = Some (r, w', out2)"
      by (auto split: option.splits)
    then have "traced w1 r w'" by (rule Cons.IH)
    with t1 Inr show ?thesis by (auto intro: traced_step)
  qed
qed

lemma processIssueRecursively_traced:
  "processIssueRecursively fuel octokit ow rp n depth dryRun verbose w = Some (r, w', out) \<Longrightarrow>
   traced w r w'"
proof (induction fuel arbitrary: ow rp n depth w r w' out)
  case 0
  then show ?case by simp
next
  case (Suc fuel)
  note run = Suc.prems
  obtain fetched w1 where get: "getIssue octokit ow rp n w = (fetched, w1)"
    by (cases "getIssue octokit ow rp n w")
  then have g: "traced w fetched w1" by (rule getIssue_traced)
  show ?case
  proof (cases fetched)
    case (Inl e)
    with get run g show ?thesis
      by (auto simp: processIssueRecursively.simps(2) intro: traced_rethrow)
  next
    case (Inr issue)
    show ?thesis
    proof (cases "state issue = ''closed'' \<or> sub_issues_summary issue = None \<or>
        (\<exists>s. sub_issues_summary issue = Some s \<and> total s = 0)")
      case True
      with get Inr run have "w' = w1" "\<exists>t. r = Inr t"
        by (auto simp: processIssueRecursively.simps(2) Let_def split: if_splits)
      with g Inr show ?thesis by (auto intro: traced_retag)
    next
      case False
      then obtain s where s: "state issue \<noteq> ''closed''" "sub_issues_summary issue = Some s"
          "total s \<noteq> 0"
        by auto
      obtain l w2 where listed: "getSubIssues octokit ow rp n w1 = (l, w2)"
        by (cases "getSubIssues octokit ow rp n w1")
      then have tl: "traced w1 l w2" by (rule getSubIssues_traced)
      show ?thesis
      proof (cases l)
        case (Inl e)
        with get Inr s listed run have "w' = w2" "r = Inl e"
          by (auto simp: processIssueRecursively.simps(2) Let_def)
        with tl Inl g Inr show ?thesis by (auto intro: traced_step traced_rethrow)
      next
        case sub: (Inr subIssues)
        let ?loop = "forEachSubIssue
          (\<lambda>subIssue. processIssueRecursively fuel octokit
             (subOwner subIssue) (subRepo subIssue) (number subIssue) (depth + 1) dryRun verbose)
          subIssues \<lparr>processed = 1, closed = 0\<rparr> w2"
        from get Inr s listed sub run obtain r3 w3 out3 where loop: "?loop = Some (r3, w3, out3)"
          by (cases ?loop) (auto simp: processIssueRecursively.simps(2) Let_def)
        have t3: "traced w2 r3 w3"
          using loop by (rule forEachSubIssue_traced [rotated]) (rule Suc.IH)
        have "traced w1 r3 w3"
          using tl sub t3 by (auto intro: traced_step)
        with g Inr have upto: "traced w r3 w3"
          by (auto intro: traced_step)
        show ?thesis
        proof (cases r3)
          case (Inl e)
          with get Inr s listed sub run loop have "w' = w3" "r = Inl e"
            by (auto simp: processIssueRecursively.simps(2) Let_def)
          with upto Inl show ?thesis by simp
        next
          case totals: (Inr totals)
          with get Inr s listed sub run loop obtain out4 where
            "closeIfComplete octokit ow rp n depth dryRun verbose issue totals w3 = (r, w', out4)"
            by (auto simp: processIssueRecursively.simps(2) Let_def split: prod.splits)
          then have "traced w3 r w'" by (rule closeIfComplete_traced)
          with upto totals show ?thesis by (auto intro: traced_step)
        qed
      qed
    qed
  qed
qed



text \<open>
  Claim C5. A fetch that fails with status 404 makes \<open>getIssue\<close> throw a new error
  whose message names the number, the owner and the repository; any other failure is
  thrown as it is; either way the store was called once. A listing that fails with status
  404 makes \<open>getSubIssues\<close> return the empty list; any other failure is thrown as it
  is. In a traversal, a run that returns has made no aborting call, and a run that throws
  has made exactly one, the last call of all: no call follows the failure, so no sibling
  is visited after it, and what the run throws is what that call surfaces as.
\<close>

theorem store_failures:
  "(issues_get octokit (store w) ow rp n = (Inl e, s) \<longrightarrow>
      getIssue octokit ow rp n w =
        (Inl (if status e = Some 404
              then JsError None
                     (''Issue #'' @ string_of_int n @ '' not found in '' @
                      string_of_owner ow @ ''/'' @ rp)
              else e),
         \<lparr>store = s, calls = calls w @ [(IssuesGet ow rp n, Some e)]\<rparr>)) \<and>
   (issues_listSubIssues octokit (store w) ow rp n 100 = (Inl e, s) \<longrightarrow>
      getSubIssues octokit ow rp n w =
        (if status e = Some 404 then Inr [] else Inl e,
         \<lparr>store = s, calls = calls w @ [(ListSubIssues ow rp n 100, Some e)]\<rparr>)) \<and>
   (processIssueRecursively fuel octokit ow rp n depth dryRun verbose w = Some (res, w', out) \<longrightarrow>
      (\<exists>evs. calls w' = calls w @ evs \<and> ends_as res evs))"
proof (intro conjI impI)
  assume "issues_get octokit (store w) ow rp n = (Inl e, s)"
  then show "getIssue octokit ow rp n w =
        (Inl (if status e = Some 404
              then JsError None
                     (''Issue #'' @ string_of_int n @ '' not found in '' @
                      string_of_owner ow @ ''/'' @ rp)
              else e),
         \<lparr>store = s, calls = calls w @ [(IssuesGet ow rp n, Some e)]\<rparr>)"
    by (simp add: getIssue_def logged_def not_found_message_def)
next
  assume "issues_listSubIssues octokit (store w) ow rp n 100 = (Inl e, s)"
  then show "getSubIssues octokit ow rp n w =
        (if status e = Some 404 then Inr [] else Inl e,
         \<lparr>store = s, calls = calls w @ [(ListSubIssues ow rp n 100, Some e)]\<rparr>)"
    by (simp add: getSubIssues_def logged_def)
next
  assume "processIssueRecursively fuel octokit ow rp n depth dryRun verbose w = Some (res, w', out)"
  then have "traced w res w'" by (rule processIssueRecursively_traced)
  then show "\<exists>evs. calls w' = calls w @ evs \<and> ends_as res evs"
    by (simp add: traced_def)
qed

theorem store_failures_witness:
  "getIssue (failing_store (JsError (Some 404) ''Not Found'')) (Some ''owner'') ''repo'' 999
     (start ()) =
     (Inl (JsError None ''Issue #999 not found in owner/repo''),
      \<lparr>store = (),
       calls = [(IssuesGet (Some ''owner'') ''repo'' 999, Some (JsError (Some 404) ''Not Found''))]\<rparr>) \<and>
   getIssue (failing_store (JsError (Some 500) ''Server Error'')) (Some ''owner'') ''repo'' 1
     (start ()) =
     (Inl (JsError (Some 500) ''Server Error''),
      \<lparr>store = (),
       calls = [(IssuesGet (Some ''owner'') ''repo'' 1, Some (JsError (Some 500) ''Server Error''))]\<rparr>) \<and>
   fst (getSubIssues (failing_store (JsError (Some 404) ''Not Found'')) (Some ''owner'') ''repo'' 1
     (start ())) = Inr [] \<and>
   fst (getSubIssues (failing_store (JsError (Some 500) ''Server Error'')) (Some ''owner'') ''repo'' 1
     (start ())) = Inl (JsError (Some 500) ''Server Error'') \<and>
   map_option (\<lambda>(r, w, out). (r, calls w, ends_as r (calls w)))
     (processIssueRecursively (Suc (Suc 0)) memory_store (Some ''owner'') ''repo'' 1 0 False False
        (start dangling_child)) =
   Some (Inl (JsError None ''Issue #999 not found in owner/repo''),
         [(IssuesGet (Some ''owner'') ''repo'' 1, None),
          (ListSubIssues (Some ''owner'') ''repo'' 1 100, None),
          (IssuesGet (Some ''owner'') ''repo'' 999, Some (JsError (Some 404) ''Not Found''))],
         True)"
proof -
  let ?e404 = "JsError (Some 404) ''Not Found''"
  let ?e500 = "JsError (Some 500) ''Server Error''"
  have msg: "''Issue #'' @ string_of_int 999 @ '' not found in '' @
      string_of_owner (Some ''owner'') @ ''/'' @ ''repo'' = ''Issue #999 not found in owner/repo''"
    by (simp add: string_of_int_def string_of_nat.simps string_of_owner_def)
  have g404: "issues_get (failing_store ?e404) (store (start ())) (Some ''owner'') ''repo'' 999
      = (Inl ?e404, ())"
    by (simp add: failing_store_def)
  have g500: "issues_get (failing_store ?e500) (store (start ())) (Some ''owner'') ''repo'' 1
      = (Inl ?e500, ())"
    by (simp add: failing_store_def)
  have l404: "issues_listSubIssues (failing_store ?e404) (store (start ())) (Some ''owner'') ''repo'' 1 100
      = (Inl ?e404, ())"
    by (simp add: failing_store_def)
  have l500: "issues_listSubIssues (failing_store ?e500) (store (start ())) (Some ''owner'') ''repo'' 1 100
      = (Inl ?e500, ())"
    by (simp add: failing_store_def)
  have "\<exists>w' out. processIssueRecursively (Suc (Suc 0)) memory_store (Some ''owner'') ''repo'' 1 0
      False False (start dangling_child) =
      Some (Inl (JsError None ''Issue #999 not found in owner/repo''), w', out) \<and>
      calls w' = [(IssuesGet (Some ''owner'') ''repo'' 1, None),
          (ListSubIssues (Some ''owner'') ''repo'' 1 100, None),
          (IssuesGet (Some ''owner'') ''repo'' 999, Some ?e404)]"
    by (simp add: run_defs memory_defs dangling_child_def not_found_message_def
        string_of_int_def string_of_nat.simps)
  then obtain w' out where
    run: "processIssueRecursively (Suc (Suc 0)) memory_store (Some ''owner'') ''repo'' 1 0
      False False (start dangling_child) =
      Some (Inl (JsError None ''Issue #999 not found in owner/repo''), w', out)"
    and log: "calls w' = [(IssuesGet (Some ''owner'') ''repo'' 1, None),
          (ListSubIssues (Some ''owner'') ''repo'' 1 100, None),
          (IssuesGet (Some ''owner'') ''repo'' 999, Some ?e404)]"
    by (elim exE conjE) (rule that)
  from store_failures [where octokit = memory_store and fuel = "Suc (Suc 0)"
      and w = "start dangling_child" and res = "Inl (JsError None ''Issue #999 not found in owner/repo'')"
      and w' = w' and out = out and ow = "Some ''owner''" and rp = "''repo''" and n = 1
      and depth = 0 and dryRun = False and verbose = False] run
  have shape: "ends_as (Inl (JsError None ''Issue #999 not found in owner/repo'') :: js_error + counts)
      (calls w')"
    by (simp add: start_def)
  from store_failures [where octokit = "failing_store ?e404" and w = "start ()"
      and ow = "Some ''owner''" and rp = "''repo''" and n = 999 and e = ?e404 and s = "()"]
    store_failures [where octokit = "failing_store ?e500" and w = "start ()"
      and ow = "Some ''owner''" and rp = "''repo''" and n = 1 and e = ?e500 and s = "()"]
    store_failures [where octokit = "failing_store ?e404" and w = "start ()"
      and ow = "Some ''owner''" and rp = "''repo''" and n = 1 and e = ?e404 and s = "()"]
    g404 g500 l404 l500 msg run log shape
  show ?thesis
    by (simp add: start_def)
qed

subsection \<open>Two scenarios\<close>

lemma split_slash_nonempty: "split_slash s \<noteq> []"
  by (induction s) (auto split: list.splits)

lemma split_slash_plain: "CHR ''/'' \<notin> set r \<Longrightarrow> split_slash r = [r]"
  by (induction r) auto

lemma split_slash_append:
  "CHR ''/'' \<notin> set r \<Longrightarrow> split_slash (xs @ CHR ''/'' # r) = split_slash xs @ [r]"
proof (induction xs)
  case Nil
  then show ?case by (simp add: split_slash_plain)
next
  case (Cons x xs)
  then show ?case
    using split_slash_nonempty [of xs] by (cases "split_slash xs") auto
qed

lemma container_of_url:
  assumes "CHR ''/'' \<notin> set ownr" and "CHR ''/'' \<notin> set r"
  shows "subOwner \<lparr>number = k, repository_url = base @ ''/'' @ ownr @ ''/'' @ r\<rparr> = Some ownr"
    and "subRepo \<lparr>number = k, repository_url = base @ ''/'' @ ownr @ ''/'' @ r\<rparr> = r"
proof -
  have "split_slash (base @ ''/'' @ ownr @ ''/'' @ r) = split_slash ((base @ CHR ''/'' # ownr) @ CHR ''/'' # r)"
    by simp
  also have "\<dots> = split_slash (base @ CHR ''/'' # ownr) @ [r]"
    using assms(2) by (rule split_slash_append)
  also have "\<dots> = split_slash base @ [ownr] @ [r]"
    using assms(1) by (simp add: split_slash_append)
  finally have parts: "split_slash (base @ ''/'' @ ownr @ ''/'' @ r) = split_slash base @ [ownr, r]"
    by simp
  show "subOwner \<lparr>number = k, repository_url = base @ ''/'' @ ownr @ ''/'' @ r\<rparr> = Some ownr"
    using parts by (simp add: subOwner_def nth_append Let_def)
  show "subRepo \<lparr>number = k, repository_url = base @ ''/'' @ ownr @ ''/'' @ r\<rparr> = r"
    using parts by (simp add: subRepo_def)
qed

text \<open>
  Claim C2, amended. In live mode, on any store that answers as the scenario says (the
  root open with summary 1 of 1, 100 percent, on both reads; one sub-issue, closed; the
  update and the comment accepted), the call returns \<open>{processed: 1, closed: 1}\<close>: the
  closed sub-issue is fetched and skipped, and counts for nothing. The calls are the fetch
  of the root, the listing, the fetch of the sub-issue, the second fetch of the root, and
  one update and one comment, both on the root.
\<close>

theorem one_closed_child_scenario:
  assumes "issues_get octokit (store w) ow rp n = (Inr root, s1)"
    and "state root \<noteq> ''closed''"
    and "sub_issues_summary root = Some \<lparr>total = 1, completed = 1, percent_completed = 100\<rparr>"
    and "issues_listSubIssues octokit s1 ow rp n 100 = (Inr [subIssue], s2)"
    and "issues_get octokit s2 (subOwner subIssue) (subRepo subIssue) (number subIssue)
           = (Inr child, s3)"
    and "state child = ''closed''"
    and "issues_get octokit s3 ow rp n = (Inr updated, s4)"
    and "sub_issues_summary updated = Some \<lparr>total = 1, completed = 1, percent_completed = 100\<rparr>"
    and "issues_update octokit s4 ow rp n ''closed'' ''completed'' = (None, s5)"
    and "issues_createComment octokit s5 ow rp n
           (robot @ '' Automatically closed: All sub-issues are now complete'') = (None, s6)"
  shows "outcome (processIssueRecursively (Suc (Suc fuel)) octokit ow rp n depth False verbose w) =
    Some (Inr \<lparr>processed = 1, closed = 1\<rparr>,
      \<lparr>store = s6,
       calls = calls w @
         [(IssuesGet ow rp n, None),
          (ListSubIssues ow rp n 100, None),
          (IssuesGet (subOwner subIssue) (subRepo subIssue) (number subIssue), None),
          (IssuesGet ow rp n, None),
          (IssuesUpdate ow rp n ''closed'' ''completed'', None),
          (CreateComment ow rp n
             (robot @ '' Automatically closed: All sub-issues are now complete''), None)]\<rparr>)"
  using assms
  by (simp add: processIssueRecursively.simps(2) getIssue_def getSubIssues_def closeIssue_def
      closeIfComplete_def complete_def logged_def Let_def outcome_def)

theorem one_closed_child_scenario_witness:
  "outcome (processIssueRecursively (Suc (Suc 0)) memory_store (Some ''owner'') ''repo'' 1 0
      False False (start one_closed_child)) =
   Some (Inr \<lparr>processed = 1, closed = 1\<rparr>,
     \<lparr>store = snd (mem_update one_closed_child (Some ''owner'') ''repo'' 1 ''closed'' ''completed''),
      calls =
        [(IssuesGet (Some ''owner'') ''repo'' 1, None),
         (ListSubIssues (Some ''owner'') ''repo'' 1 100, None),
         (IssuesGet (Some ''owner'') ''repo'' 2, None),
         (IssuesGet (Some ''owner'') ''repo'' 1, None),
         (IssuesUpdate (Some ''owner'') ''repo'' 1 ''closed'' ''completed'', None),
         (CreateComment (Some ''owner'') ''repo'' 1
            (robot @ '' Automatically closed: All sub-issues are now complete''), None)]\<rparr>)"
proof -
  let ?m = one_closed_child
  let ?m' = "snd (mem_update one_closed_child (Some ''owner'') ''repo'' 1 ''closed'' ''completed'')"
  let ?root = "\<lparr>title = ''Parent'', state = ''open'',
    sub_issues_summary = Some \<lparr>total = 1, completed = 1, percent_completed = 100\<rparr>\<rparr>"
  let ?sub = "\<lparr>number = 2, repository_url = ''https://api.github.com/repos/owner/repo''\<rparr>"
  let ?child = "\<lparr>title = ''Child'', state = ''closed'', sub_issues_summary = None\<rparr>"
  have c: "subOwner ?sub = Some ''owner''" "subRepo ?sub = ''repo''" "number ?sub = 2"
    by (simp_all add: subOwner_def subRepo_def Let_def)
  have h1: "issues_get memory_store (store (start ?m)) (Some ''owner'') ''repo'' 1 = (Inr ?root, ?m)"
    by (simp add: memory_defs one_closed_child_def)
  have h2: "state ?root \<noteq> ''closed''" by simp
  have h3: "sub_issues_summary ?root = Some \<lparr>total = 1, completed = 1, percent_completed = 100\<rparr>"
    by simp
  have h4: "issues_listSubIssues memory_store ?m (Some ''owner'') ''repo'' 1 100 = (Inr [?sub], ?m)"
    by (simp add: memory_defs one_closed_child_def)
  have h5: "issues_get memory_store ?m (subOwner ?sub) (subRepo ?sub) (number ?sub) = (Inr ?child, ?m)"
    unfolding c by (simp add: memory_defs one_closed_child_def)
  have h6: "state ?child = ''closed''" by simp
  have h7: "issues_get memory_store ?m (Some ''owner'') ''repo'' 1 = (Inr ?root, ?m)"
    by (simp add: memory_defs one_closed_child_def)
  have h8: "issues_update memory_store ?m (Some ''owner'') ''repo'' 1 ''closed'' ''completed''
      = (None, ?m')"
    by (simp add: memory_defs one_closed_child_def)
  have h9: "issues_createComment memory_store ?m' (Some ''owner'') ''repo'' 1
      (robot @ '' Automatically closed: All sub-issues are now complete'') = (None, ?m')"
    by (simp add: memory_defs one_closed_child_def)
  from one_closed_child_scenario [OF h1 h2 h3 h4 h5 h6 h7 h3 h8 h9, of 0 0 False]
  show ?thesis unfolding c by (simp add: start_def)
qed

text \<open>
  Claim C2, as stated, fails: on the in-memory store holding the scenario the call
  returns \<open>processed = 1\<close>, not 2. The branch for a closed issue returns
  \<open>{processed: 0, closed: 0}\<close>.
\<close>

theorem one_closed_child_counterexample:
  "fst (mem_get one_closed_child (Some ''owner'') ''repo'' 1) =
     Inr \<lparr>title = ''Parent'', state = ''open'',
          sub_issues_summary = Some \<lparr>total = 1, completed = 1, percent_completed = 100\<rparr>\<rparr> \<and>
   fst (mem_listSubIssues one_closed_child (Some ''owner'') ''repo'' 1 100) =
     Inr [\<lparr>number = 2, repository_url = ''https://api.github.com/repos/owner/repo''\<rparr>] \<and>
   fst (mem_get one_closed_child (Some ''owner'') ''repo'' 2) =
     Inr \<lparr>title = ''Child'', state = ''closed'', sub_issues_summary = None\<rparr> \<and>
   map_option fst
     (processIssueRecursively (Suc (Suc 0)) memory_store (Some ''owner'') ''repo'' 1 0
        False False (start one_closed_child)) = Some (Inr \<lparr>processed = 1, closed = 1\<rparr>) \<and>
   map_option fst
     (processIssueRecursively (Suc (Suc 0)) memory_store (Some ''owner'') ''repo'' 1 0
        False False (start one_closed_child)) \<noteq> Some (Inr \<lparr>processed = 2, closed = 1\<rparr>)"
  by (simp add: run_defs memory_defs one_closed_child_def)

text \<open>
  Claim C8, amended. The container of a sub-issue is read from its own record: the owner
  and the repository are the last two pieces of its \<open>repository_url\<close>, and the fetch is
  made with them, whatever the container of the parent is. In live mode, on any store
  that answers as the scenario says (the root open with summary 2 of 2, 100 percent, on
  both reads; two sub-issues, both closed; the update and the comment accepted), the
  sub-issues are fetched in their own containers and the call returns
  \<open>{processed: 1, closed: 1}\<close>.
\<close>

theorem two_children_elsewhere_scenario:
  assumes "issues_get octokit (store w) ow rp n = (Inr root, s1)"
    and "state root \<noteq> ''closed''"
    and "sub_issues_summary root = Some \<lparr>total = 2, completed = 2, percent_completed = 100\<rparr>"
    and "issues_listSubIssues octokit s1 ow rp n 100 = (Inr [sub1, sub2], s2)"
    and "issues_get octokit s2 (subOwner sub1) (subRepo sub1) (number sub1) = (Inr child1, s3)"
    and "state child1 = ''closed''"
    and "issues_get octokit s3 (subOwner sub2) (subRepo sub2) (number sub2) = (Inr child2, s4)"
    and "state child2 = ''closed''"
    and "issues_get octokit s4 ow rp n = (Inr updated, s5)"
    and "sub_issues_summary updated = Some \<lparr>total = 2, completed = 2, percent_completed = 100\<rparr>"
    and "issues_update octokit s5 ow rp n ''closed'' ''completed'' = (None, s6)"
    and "issues_createComment octokit s6 ow rp n
           (robot @ '' Automatically closed: All sub-issues are now complete'') = (None, s7)"
  shows "outcome (processIssueRecursively (Suc (Suc fuel)) octokit ow rp n depth False verbose w) =
    Some (Inr \<lparr>processed = 1, closed = 1\<rparr>,
      \<lparr>store = s7,
       calls = calls w @
         [(IssuesGet ow rp n, None),
          (ListSubIssues ow rp n 100, None),
          (IssuesGet (subOwner sub1) (subRepo sub1) (number sub1), None),
          (IssuesGet (subOwner sub2) (subRepo sub2) (number sub2), None),
          (IssuesGet ow rp n, None),
          (IssuesUpdate ow rp n ''closed'' ''completed'', None),
          (CreateComment ow rp n
             (robot @ '' Automatically closed: All sub-issues are now complete''), None)]\<rparr>) \<and>
    (CHR ''/'' \<notin> set ownr \<and> CHR ''/'' \<notin> set r \<longrightarrow>
       subOwner \<lparr>number = k, repository_url = base @ ''/'' @ ownr @ ''/'' @ r\<rparr> = Some ownr \<and>
       subRepo \<lparr>number = k, repository_url = base @ ''/'' @ ownr @ ''/'' @ r\<rparr> = r)"
  using assms container_of_url [of ownr r k base]
  by (simp add: processIssueRecursively.simps(2) getIssue_def getSubIssues_def closeIssue_def
      closeIfComplete_def complete_def logged_def Let_def outcome_def)


theorem two_children_elsewhere_scenario_witness:
  "outcome (processIssueRecursively (Suc (Suc 0)) memory_store (Some ''owner'') ''repo'' 1 0
      False False (start cross_repo)) =
   Some (Inr \<lparr>processed = 1, closed = 1\<rparr>,
     \<lparr>store = snd (mem_update cross_repo (Some ''owner'') ''repo'' 1 ''closed'' ''completed''),
      calls =
        [(IssuesGet (Some ''owner'') ''repo'' 1, None),
         (ListSubIssues (Some ''owner'') ''repo'' 1 100, None),
         (IssuesGet (Some ''org1'') ''repo1'' 5, None),
         (IssuesGet (Some ''org2'') ''repo2'' 10, None),
         (IssuesGet (Some ''owner'') ''repo'' 1, None),
         (IssuesUpdate (Some ''owner'') ''repo'' 1 ''closed'' ''completed'', None),
         (CreateComment (Some ''owner'') ''repo'' 1
            (robot @ '' Automatically closed: All sub-issues are now complete''), None)]\<rparr>)"
proof -
  let ?m = cross_repo
  let ?m' = "snd (mem_update cross_repo (Some ''owner'') ''repo'' 1 ''closed'' ''completed'')"
  let ?root = "\<lparr>title = ''Parent'', state = ''open'',
    sub_issues_summary = Some \<lparr>total = 2, completed = 2, percent_completed = 100\<rparr>\<rparr>"
  let ?sub1 = "\<lparr>number = 5, repository_url = ''https://api.github.com/repos/org1/repo1''\<rparr>"
  let ?sub2 = "\<lparr>number = 10, repository_url = ''https://api.github.com/repos/org2/repo2''\<rparr>"
  let ?child1 = "\<lparr>title = ''Cross-repo sub 1'', state = ''closed'', sub_issues_summary = None\<rparr>"
  let ?child2 = "\<lparr>title = ''Cross-repo sub 2'', state = ''closed'', sub_issues_summary = None\<rparr>"
  have c1: "subOwner ?sub1 = Some ''org1''" "subRepo ?sub1 = ''repo1''" "number ?sub1 = 5"
    using container_of_url [of "''org1''" "''repo1''" 5 "''https://api.github.com/repos''"]
    by simp_all
  have c2: "subOwner ?sub2 = Some ''org2''" "subRepo ?sub2 = ''repo2''" "number ?sub2 = 10"
    using container_of_url [of "''org2''" "''repo2''" 10 "''https://api.github.com/repos''"]
    by simp_all
  have h1: "issues_get memory_store (store (start ?m)) (Some ''owner'') ''repo'' 1 = (Inr ?root, ?m)"
    by (simp add: memory_defs cross_repo_def)
  have h2: "state ?root \<noteq> ''closed''" by simp
  have h3: "sub_issues_summary ?root = Some \<lparr>total = 2, completed = 2, percent_completed = 100\<rparr>"
    by simp
  have h4: "issues_listSubIssues memory_store ?m (Some ''owner'') ''repo'' 1 100
      = (Inr [?sub1, ?sub2], ?m)"
    by (simp add: memory_defs cross_repo_def)
  have h5: "issues_get memory_store ?m (subOwner ?sub1) (subRepo ?sub1) (number ?sub1)
      = (Inr ?child1, ?m)"
    unfolding c1 by (simp add: memory_defs cross_repo_def)
  have h6: "state ?child1 = ''closed''" by simp
  have h7: "issues_get memory_store ?m (subOwner ?sub2) (subRepo ?sub2) (number ?sub2)
      = (Inr ?child2, ?m)"
    unfolding c2 by (simp add: memory_defs cross_repo_def)
  have h8: "state ?child2 = ''closed''" by simp
  have h9: "issues_get memory_store ?m (Some ''owner'') ''repo'' 1 = (Inr ?root, ?m)"
    by (simp add: memory_defs cross_repo_def)
  have h10: "issues_update memory_store ?m (Some ''owner'') ''repo'' 1 ''closed'' ''completed''
      = (None, ?m')"
    by (simp add: memory_defs cross_repo_def)
  have h11: "issues_createComment memory_store ?m' (Some ''owner'') ''repo'' 1
      (robot @ '' Automatically closed: All sub-issues are now complete'') = (None, ?m')"
    by (simp add: memory_defs cross_repo_def)
  from two_children_elsewhere_scenario [OF h1 h2 h3 h4 h5 h6 h7 h8 h9 h3 h10 h11, of 0 0 False]
  show ?thesis unfolding c1 c2 by (simp add: start_def)
qed

text \<open>
  Claim C8, as stated, fails in its result: on the in-memory store holding the scenario,
  with the sub-issues in \<open>org1/repo1\<close> and \<open>org2/repo2\<close>, the call returns
  \<open>processed = 1\<close>, not 3, since closed sub-issues count for nothing.
\<close>

theorem two_children_elsewhere_counterexample:
  "fst (mem_get cross_repo (Some ''owner'') ''repo'' 1) =
     Inr \<lparr>title = ''Parent'', state = ''open'',
          sub_issues_summary = Some \<lparr>total = 2, completed = 2, percent_completed = 100\<rparr>\<rparr> \<and>
   fst (mem_listSubIssues cross_repo (Some ''owner'') ''repo'' 1 100) =
     Inr [\<lparr>number = 5, repository_url = ''https://api.github.com/repos/org1/repo1''\<rparr>,
          \<lparr>number = 10, repository_url = ''https://api.github.com/repos/org2/repo2''\<rparr>] \<and>
   fst (mem_get cross_repo (Some ''org1'') ''repo1'' 5) =
     Inr \<lparr>title = ''Cross-repo sub 1'', state = ''closed'', sub_issues_summary = None\<rparr> \<and>
   fst (mem_get cross_repo (Some ''org2'') ''repo2'' 10) =
     Inr \<lparr>title = ''Cross-repo sub 2'', state = ''closed'', sub_issues_summary = None\<rparr> \<and>
   map_option fst
     (processIssueRecursively (Suc (Suc 0)) memory_store (Some ''owner'') ''repo'' 1 0
        False False (start cross_repo)) = Some (Inr \<lparr>processed = 1, closed = 1\<rparr>) \<and>
   map_option fst
     (processIssueRecursively (Suc (Suc 0)) memory_store (Some ''owner'') ''repo'' 1 0
        False False (start cross_repo)) \<noteq> Some (Inr \<lparr>processed = 3, closed = 1\<rparr>)"
  by (simp add: run_defs memory_defs cross_repo_def)

subsection \<open>One page of sub-issues\<close>

lemma processIssueRecursively_cases:
  assumes "processIssueRecursively (Suc fuel) octokit ow rp n depth dryRun verbose w =
      Some (res, w', out)"
  obtains
    (fetch_failed) e where
      "getIssue octokit ow rp n w = (Inl e, w')" "res = Inl e"
  | (base) issue r where
      "getIssue octokit ow rp n w = (Inr issue, w')" "res = Inr r" "processed r \<le> 1"
  | (listing_failed) issue w1 e where
      "getIssue octokit ow rp n w = (Inr issue, w1)"
      "getSubIssues octokit ow rp n w1 = (Inl e, w')" "res = Inl e"
  | (child_failed) issue w1 subIssues w2 e out3 where
      "getIssue octokit ow rp n w = (Inr issue, w1)"
      "getSubIssues octokit ow rp n w1 = (Inr subIssues, w2)"
      "forEachSubIssue
         (\<lambda>subIssue. processIssueRecursively fuel octokit
            (subOwner subIssue) (subRepo subIssue) (number subIssue) (depth + 1) dryRun verbose)
         subIssues \<lparr>processed = 1, closed = 0\<rparr> w2 = Some (Inl e, w', out3)"
      "res = Inl e"
  | (decided) issue w1 subIssues w2 totals w3 out3 out4 where
      "getIssue octokit ow rp n w = (Inr issue, w1)"
      "getSubIssues octokit ow rp n w1 = (Inr subIssues, w2)"
      "forEachSubIssue
         (\<lambda>subIssue. processIssueRecursively fuel octokit
            (subOwner subIssue) (subRepo subIssue) (number subIssue) (depth + 1) dryRun verbose)
         subIssues \<lparr>processed = 1, closed = 0\<rparr> w2 = Some (Inr totals, w3, out3)"
      "closeIfComplete octokit ow rp n depth dryRun verbose issue totals w3 = (res, w', out4)"
proof -
  obtain fetched w1 where get: "getIssue octokit ow rp n w = (fetched, w1)"
    by (cases "getIssue octokit ow rp n w")
  show thesis
  proof (cases fetched)
    case (Inl e)
    with get assms have "getIssue octokit ow rp n w = (Inl e, w')" "res = Inl e"
      by (auto simp: processIssueRecursively.simps(2))
    then show thesis by (rule fetch_failed)
  next
    case (Inr issue)
    show thesis
    proof (cases "state issue = ''closed'' \<or> sub_issues_summary issue = None \<or>
        (\<exists>s. sub_issues_summary issue = Some s \<and> total s = 0)")
      case True
      with get Inr assms have "getIssue octokit ow rp n w = (Inr issue, w')"
          "\<exists>r. res = Inr r \<and> processed r \<le> 1"
        by (auto simp: processIssueRecursively.simps(2) Let_def split: if_splits)
      then show thesis using base by blast
    next
      case False
      then obtain s where s: "state issue \<noteq> ''closed''" "sub_issues_summary issue = Some s"
          "total s \<noteq> 0"
        by auto
      obtain l w2 where listed: "getSubIssues octokit ow rp n w1 = (l, w2)"
        by (cases "getSubIssues octokit ow rp n w1")
      show thesis
      proof (cases l)
        case (Inl e)
        with get Inr s listed assms have "w' = w2" "res = Inl e"
          by (auto simp: processIssueRecursively.simps(2) Let_def)
        with get Inr listed Inl show thesis using listing_failed by blast
      next
        case sub: (Inr subIssues)
        let ?loop = "forEachSubIssue
          (\<lambda>subIssue. processIssueRecursively fuel octokit
             (subOwner subIssue) (subRepo subIssue) (number subIssue) (depth + 1) dryRun verbose)
          subIssues \<lparr>processed = 1, closed = 0\<rparr> w2"
        from get Inr s listed sub assms obtain r3 w3 out3 where loop: "?loop = Some (r3, w3, out3)"
          by (cases ?loop) (auto simp: processIssueRecursively.simps(2) Let_def)
        show thesis
        proof (cases r3)
          case (Inl e)
          with get Inr s listed sub assms loop have "w' = w3" "res = Inl e"
            by (auto simp: processIssueRecursively.simps(2) Let_def)
          with get Inr listed sub loop Inl show thesis using child_failed by blast
        next
          case totals: (Inr totals)
          with get Inr s listed sub assms loop obtain out4 where
            "closeIfComplete octokit ow rp n depth dryRun verbose issue totals w3 = (res, w', out4)"
            by (auto simp: processIssueRecursively.simps(2) Let_def split: prod.splits)
          with get Inr listed sub loop totals show thesis using decided by blast
        qed
      qed
    qed
  qed
qed


lemma single_listing_append:
  "single_listing a \<Longrightarrow> single_listing b \<Longrightarrow> b = [] \<or> \<not> is_list (hd b) \<Longrightarrow>
   single_listing (a @ b)"
proof (induction a rule: single_listing.induct)
  case 1
  then show ?case by simp
next
  case (2 rq)
  then show ?case
    by (cases b; cases "hd b") auto
next
  case (3 rq rq' rest)
  then show ?case
    by (cases rq') auto
qed

lemma single_listing_no_list:
  "\<forall>rq\<in>set rqs. \<not> is_list rq \<Longrightarrow> single_listing rqs"
proof (induction rqs rule: single_listing.induct)
  case 1
  show ?case by simp
next
  case (2 rq)
  then show ?case by simp
next
  case (3 rq rq' rest)
  then show ?case by (cases rq') auto
qed

lemma gets_simps [simp]:
  "gets [] = 0"
  "gets (evs @ evs') = gets evs + gets evs'"
  "gets ((rq, err) # evs) = (if is_get rq then 1 else 0) + gets evs"
  by (simp_all add: gets_def)

lemma listings_simps [simp]:
  "listings [] = 0"
  "listings (evs @ evs') = listings evs + listings evs'"
  "listings ((rq, err) # evs) = (if is_list rq then 1 else 0) + listings evs"
  by (simp_all add: listings_def)

lemma getIssue_calls:
  "getIssue octokit ow rp n w = (r, w1) \<Longrightarrow> \<exists>err. calls w1 = calls w @ [(IssuesGet ow rp n, err)]"
  by (auto simp: getIssue_def logged_def split: prod.splits sum.splits)

lemma getSubIssues_calls:
  "getSubIssues octokit ow rp n w = (r, w1) \<Longrightarrow>
   \<exists>err. calls w1 = calls w @ [(ListSubIssues ow rp n 100, err)]"
  by (auto simp: getSubIssues_def logged_def split: prod.splits sum.splits)

lemma getSubIssues_page:
  "honours_page_size octokit \<Longrightarrow> getSubIssues octokit ow rp n w = (Inr subIssues, w1) \<Longrightarrow>
   length subIssues \<le> 100"
proof -
  assume h: "honours_page_size octokit" and g: "getSubIssues octokit ow rp n w = (Inr subIssues, w1)"
  obtain l s where l: "issues_listSubIssues octokit (store w) ow rp n 100 = (l, s)"
    by (cases "issues_listSubIssues octokit (store w) ow rp n 100")
  show ?thesis
  proof (cases l)
    case (Inl e)
    with l g show ?thesis
      by (auto simp: getSubIssues_def split: if_splits)
  next
    case (Inr data)
    with l g have "data = subIssues" by (simp add: getSubIssues_def)
    with l Inr h show ?thesis
      unfolding honours_page_size_def by blast
  qed
qed

lemma closeIssue_calls:
  "closeIssue octokit ow rp n reason w = (r, w1) \<Longrightarrow>
   \<exists>evs. calls w1 = calls w @ evs \<and> (\<forall>ev\<in>set evs. is_mutation (fst ev))"
proof -
  assume run: "closeIssue octokit ow rp n reason w = (r, w1)"
  obtain u s where u: "issues_update octokit (store w) ow rp n ''closed'' ''completed'' = (u, s)"
    by (cases "issues_update octokit (store w) ow rp n ''closed'' ''completed''")
  show ?thesis
  proof (cases u)
    case (Some e)
    with run u have "calls w1 = calls w @ [(IssuesUpdate ow rp n ''closed'' ''completed'', Some e)]"
      by (auto simp: closeIssue_def logged_def)
    then show ?thesis
      by (intro exI [of _ "[(IssuesUpdate ow rp n ''closed'' ''completed'', Some e)]"]) simp
  next
    case None
    let ?body = "robot @ '' Automatically closed: '' @ reason"
    obtain c s1 where c: "issues_createComment octokit s ow rp n ?body = (c, s1)"
      by (cases "issues_createComment octokit s ow rp n ?body")
    with run u None have "calls w1 = calls w @
        [(IssuesUpdate ow rp n ''closed'' ''completed'', None), (CreateComment ow rp n ?body, c)]"
      by (auto simp: closeIssue_def logged_def Let_def)
    then show ?thesis
      by (intro exI [of _ "[(IssuesUpdate ow rp n ''closed'' ''completed'', None),
          (CreateComment ow rp n ?body, c)]"]) simp
  qed
qed

lemma closeIfComplete_calls:
  assumes "closeIfComplete octokit ow rp n depth dryRun verbose issue totals w = (res, w', out)"
  shows "\<exists>err evs. calls w' = calls w @ (IssuesGet ow rp n, err) # evs \<and>
      (\<forall>ev\<in>set evs. is_mutation (fst ev)) \<and>
      (\<forall>r. res = Inr r \<longrightarrow> processed r = processed totals)"
proof -
  obtain fetched w1 where get: "getIssue octokit ow rp n w = (fetched, w1)"
    by (cases "getIssue octokit ow rp n w")
  from getIssue_calls [OF get] obtain err where
    c1: "calls w1 = calls w @ [(IssuesGet ow rp n, err)]" by blast
  obtain c w2 where close: "closeIssue octokit ow rp n ''All sub-issues are now complete'' w1
      = (c, w2)"
    by (cases "closeIssue octokit ow rp n ''All sub-issues are now complete'' w1")
  from closeIssue_calls [OF close] obtain evs where
    c2: "calls w2 = calls w1 @ evs" "\<forall>ev\<in>set evs. is_mutation (fst ev)" by blast
  have "(w' = w1 \<or> w' = w2) \<and> (\<forall>r. res = Inr r \<longrightarrow> processed r = processed totals)"
  proof (cases fetched)
    case (Inl e)
    with assms get show ?thesis by (auto simp: closeIfComplete_def)
  next
    case (Inr updatedIssue)
    show ?thesis
    proof (cases "complete updatedIssue \<and> \<not> dryRun")
      case False
      with assms get Inr show ?thesis
        by (auto simp: closeIfComplete_def split: if_splits)
    next
      case True
      with assms get Inr close show ?thesis
        by (cases c) (auto simp: closeIfComplete_def)
    qed
  qed
  then have where_to: "w' = w1 \<or> w' = w2"
    and same: "\<forall>r. res = Inr r \<longrightarrow> processed r = processed totals"
    by blast+
  from where_to show ?thesis
  proof
    assume "w' = w1"
    with c1 have "calls w' = calls w @ (IssuesGet ow rp n, err) # []" by simp
    moreover have "\<forall>ev\<in>set ([] :: event list). is_mutation (fst ev)" by simp
    ultimately show ?thesis using same by blast
  next
    assume "w' = w2"
    with c1 c2 have "calls w' = calls w @ (IssuesGet ow rp n, err) # evs" by simp
    with same c2(2) show ?thesis by blast
  qed
qed

lemma is_mutation_not_list: "is_mutation rq \<Longrightarrow> \<not> is_list rq"
  by (cases rq) auto

lemma is_mutation_not_get: "is_mutation rq \<Longrightarrow> \<not> is_get rq"
  by (cases rq) auto

lemma mutations_count:
  "\<forall>ev\<in>set evs. is_mutation (fst ev) \<Longrightarrow> gets evs = 0 \<and> listings evs = 0"
proof (induction evs)
  case Nil
  show ?case by simp
next
  case (Cons ev evs)
  obtain rq err where ev: "ev = (rq, err)" by (cases ev)
  with Cons.prems have "is_mutation rq" by simp
  then have "\<not> is_get rq" "\<not> is_list rq"
    by (simp_all add: is_mutation_not_get is_mutation_not_list)
  with Cons ev show ?case by simp
qed

lemma closeIfComplete_visits:
  assumes "closeIfComplete octokit ow rp n depth dryRun verbose issue totals w = (res, w', out)"
  shows "\<exists>evs. calls w' = calls w @ evs \<and> single_listing (map fst evs) \<and>
      evs \<noteq> [] \<and> is_get (fst (hd evs)) \<and> gets evs = 1 \<and> listings evs = 0 \<and>
      (\<forall>r. res = Inr r \<longrightarrow> processed r = processed totals)"
proof -
  from closeIfComplete_calls [OF assms] obtain err evs where
    c: "calls w' = calls w @ (IssuesGet ow rp n, err) # evs"
      "\<forall>ev\<in>set evs. is_mutation (fst ev)"
      "\<forall>r. res = Inr r \<longrightarrow> processed r = processed totals"
    by blast
  have "single_listing (map fst ((IssuesGet ow rp n, err) # evs))"
    using c(2) by (intro single_listing_no_list) (auto simp: is_mutation_not_list)
  moreover have "gets ((IssuesGet ow rp n, err) # evs) = 1"
      "listings ((IssuesGet ow rp n, err) # evs) = 0"
    using mutations_count [OF c(2)] by simp_all
  moreover have "(IssuesGet ow rp n, err) # evs \<noteq> []"
      "is_get (fst (hd ((IssuesGet ow rp n, err) # evs)))"
    by simp_all
  ultimately show ?thesis
    using c(1,3) by blast
qed

lemma forEachSubIssue_visits:
  assumes body: "\<And>subIssue w res w' out.
      f subIssue w = Some (res, w', out) \<Longrightarrow> visits_within octokit 1 0 w res w'"
  shows "forEachSubIssue f subIssues totals w = Some (res, w', out) \<Longrightarrow>
         visits_within octokit (length subIssues) (processed totals) w res w'"
proof (induction subIssues arbitrary: totals w out)
  case Nil
  then show ?case by (auto simp: visits_within_def)
next
  case (Cons subIssue rest)
  from Cons.prems obtain r1 w1 out1 where first: "f subIssue w = Some (r1, w1, out1)"
    by (cases "f subIssue w") auto
  from body [OF first] obtain evs1 where
    e1: "calls w1 = calls w @ evs1" "single_listing (map fst evs1)"
      "evs1 = [] \<or> is_get (fst (hd evs1))"
    and b1: "honours_page_size octokit \<Longrightarrow> gets evs1 \<le> 1 + 101 * listings evs1"
      "\<And>r. honours_page_size octokit \<Longrightarrow> r1 = Inr r \<Longrightarrow> processed r \<le> 1 + 100 * listings evs1"
    by (auto simp: visits_within_def)
  show ?case
  proof (cases r1)
    case (Inl e)
    with first Cons.prems have "res = Inl e" "w' = w1" by simp_all
    with e1 b1(1) show ?thesis
      unfolding visits_within_def
      by (intro exI [of _ evs1]) auto
  next
    case (Inr result)
    let ?t = "\<lparr>processed = processed totals + processed result,
        closed = closed totals + closed result\<rparr>"
    from Inr first Cons.prems obtain out2 where
      "forEachSubIssue f rest ?t w1 = Some (res, w', out2)"
      by (auto split: option.splits)
    from Cons.IH [OF this] obtain evs2 where
      e2: "calls w' = calls w1 @ evs2" "single_listing (map fst evs2)"
        "evs2 = [] \<or> is_get (fst (hd evs2))"
      and b2: "honours_page_size octokit \<Longrightarrow> gets evs2 \<le> length rest + 101 * listings evs2"
        "\<And>r. honours_page_size octokit \<Longrightarrow> res = Inr r \<Longrightarrow>
           processed r \<le> processed ?t + length rest + 100 * listings evs2"
      by (auto simp: visits_within_def)
    have not_list: "map fst evs2 = [] \<or> \<not> is_list (hd (map fst evs2))"
      using e2(3) by (cases evs2; cases "fst (hd evs2)") auto
    have shape: "single_listing (map fst (evs1 @ evs2))"
      using single_listing_append [OF e1(2) e2(2) not_list] by simp
    have head: "evs1 @ evs2 = [] \<or> is_get (fst (hd (evs1 @ evs2)))"
      using e1(3) e2(3) by (cases evs1) auto
    have count: "gets (evs1 @ evs2) \<le> length (subIssue # rest) + 101 * listings (evs1 @ evs2)"
      if "honours_page_size octokit"
      using b1(1) [OF that] b2(1) [OF that] by simp
    have proc: "processed r \<le> processed totals + length (subIssue # rest) +
        100 * listings (evs1 @ evs2)"
      if "honours_page_size octokit" "res = Inr r" for r
      using b1(2) [OF that(1) Inr] b2(2) [OF that] by simp
    show ?thesis
      unfolding visits_within_def
      using e1(1) e2(1) shape head count proc
      by (intro exI [of _ "evs1 @ evs2"]) auto
  qed
qed


lemma processIssueRecursively_visits:
  "processIssueRecursively fuel octokit ow rp n depth dryRun verbose w = Some (res, w', out) \<Longrightarrow>
   visits_within octokit 1 0 w res w'"
proof (induction fuel arbitrary: ow rp n depth w res w' out)
  case 0
  then show ?case by simp
next
  case (Suc fuel)
  let ?body = "\<lambda>subIssue. processIssueRecursively fuel octokit
      (subOwner subIssue) (subRepo subIssue) (number subIssue) (depth + 1) dryRun verbose"
  have loop: "visits_within octokit (length subIssues) (processed totals) w2 r3 w3"
    if "forEachSubIssue ?body subIssues totals w2 = Some (r3, w3, out3)"
    for subIssues totals w2 r3 w3 out3
    using that by (rule forEachSubIssue_visits [rotated]) (rule Suc.IH)
  from Suc.prems show ?case
  proof (cases rule: processIssueRecursively_cases)
    case (fetch_failed e)
    from getIssue_calls [OF fetch_failed(1)] obtain err where
      "calls w' = calls w @ [(IssuesGet ow rp n, err)]" by blast
    with fetch_failed(2) show ?thesis
      unfolding visits_within_def
      by (intro exI [of _ "[(IssuesGet ow rp n, err)]"]) simp
  next
    case (base issue r)
    from getIssue_calls [OF base(1)] obtain err where
      "calls w' = calls w @ [(IssuesGet ow rp n, err)]" by blast
    with base(2,3) show ?thesis
      unfolding visits_within_def
      by (intro exI [of _ "[(IssuesGet ow rp n, err)]"]) simp
  next
    case (listing_failed issue w1 e)
    from getIssue_calls [OF listing_failed(1)] obtain err where
      c1: "calls w1 = calls w @ [(IssuesGet ow rp n, err)]" by blast
    from getSubIssues_calls [OF listing_failed(2)] obtain err2 where
      c2: "calls w' = calls w1 @ [(ListSubIssues ow rp n 100, err2)]" by blast
    from c1 c2 listing_failed(3) show ?thesis
      unfolding visits_within_def
      by (intro exI [of _ "[(IssuesGet ow rp n, err), (ListSubIssues ow rp n 100, err2)]"]) simp
  next
    case (child_failed issue w1 subIssues w2 e out3)
    from getIssue_calls [OF child_failed(1)] obtain err where
      c1: "calls w1 = calls w @ [(IssuesGet ow rp n, err)]" by blast
    from getSubIssues_calls [OF child_failed(2)] obtain err2 where
      c2: "calls w2 = calls w1 @ [(ListSubIssues ow rp n 100, err2)]" by blast
    from loop [OF child_failed(3)] obtain evs3 where
      e3: "calls w' = calls w2 @ evs3" "single_listing (map fst evs3)"
      and b3: "honours_page_size octokit \<Longrightarrow> gets evs3 \<le> length subIssues + 101 * listings evs3"
      by (auto simp: visits_within_def)
    have page: "length subIssues \<le> 100" if "honours_page_size octokit"
      using that child_failed(2) by (rule getSubIssues_page)
    have count: "gets ((IssuesGet ow rp n, err) # (ListSubIssues ow rp n 100, err2) # evs3)
        \<le> 1 + 101 * listings ((IssuesGet ow rp n, err) # (ListSubIssues ow rp n 100, err2) # evs3)"
      if "honours_page_size octokit"
      using b3 [OF that] page [OF that] by simp
    show ?thesis
      unfolding visits_within_def
      using c1 c2 e3 count child_failed(4)
      by (intro exI [of _ "(IssuesGet ow rp n, err) # (ListSubIssues ow rp n 100, err2) # evs3"])
        simp
  next
    case (decided issue w1 subIssues w2 totals w3 out3 out4)
    from getIssue_calls [OF decided(1)] obtain err where
      c1: "calls w1 = calls w @ [(IssuesGet ow rp n, err)]" by blast
    from getSubIssues_calls [OF decided(2)] obtain err2 where
      c2: "calls w2 = calls w1 @ [(ListSubIssues ow rp n 100, err2)]" by blast
    from loop [OF decided(3)] obtain evs3 where
      e3: "calls w3 = calls w2 @ evs3" "single_listing (map fst evs3)"
      and b3: "honours_page_size octokit \<Longrightarrow> gets evs3 \<le> length subIssues + 101 * listings evs3"
        "honours_page_size octokit \<Longrightarrow> processed totals \<le> 1 + length subIssues + 100 * listings evs3"
      by (auto simp: visits_within_def)
    from closeIfComplete_visits [OF decided(4)] obtain evs4 where
      e4: "calls w' = calls w3 @ evs4" "single_listing (map fst evs4)"
        "evs4 \<noteq> []" "is_get (fst (hd evs4))" "gets evs4 = 1" "listings evs4 = 0"
        "\<forall>r. res = Inr r \<longrightarrow> processed r = processed totals"
      by blast
    have page: "length subIssues \<le> 100" if "honours_page_size octokit"
      using that decided(2) by (rule getSubIssues_page)
    have not_list: "map fst evs4 = [] \<or> \<not> is_list (hd (map fst evs4))"
      using e4(3,4) by (cases evs4; cases "fst (hd evs4)") auto
    have shape: "single_listing (map fst (evs3 @ evs4))"
      using single_listing_append [OF e3(2) e4(2) not_list] by simp
    let ?evs = "(IssuesGet ow rp n, err) # (ListSubIssues ow rp n 100, err2) # evs3 @ evs4"
    have count: "gets ?evs \<le> 1 + 101 * listings ?evs" if "honours_page_size octokit"
      using b3(1) [OF that] page [OF that] e4(5,6) by simp
    have proc: "processed r \<le> 0 + 1 + 100 * listings ?evs"
      if "honours_page_size octokit" "res = Inr r" for r
    proof -
      from e4(7) that(2) have "processed r = processed totals" by blast
      with b3(2) [OF that(1)] page [OF that(1)] e4(6) show ?thesis by simp
    qed
    have "calls w' = calls w @ ?evs"
      using c1 c2 e3(1) e4(1) by simp
    moreover have "single_listing (map fst ?evs)"
      using shape by simp
    moreover have "?evs = [] \<or> is_get (fst (hd ?evs))" by simp
    ultimately show ?thesis
      unfolding visits_within_def
      using count proc by blast
  qed
qed

lemma flat_store_honours: "honours_page_size (flat_store k)"
  by (auto simp: honours_page_size_def flat_store_def)

text \<open>
  Claim C10. Every listing a traversal issues asks for a page of 100, comes right after
  the fetch of the same issue and is not followed by a second listing: one request for
  each issue visited, and no further page. If the store honours the page size, a listing
  therefore accounts for at most 100 visited sub-issues: a run makes at most one fetch,
  plus 101 for every listing (100 sub-issues and the second fetch of their parent), and
  counts at most one issue as processed, plus 100 for every listing. Sub-issues the store
  holds beyond the first page are never fetched.
\<close>

theorem one_page_of_sub_issues:
  assumes "processIssueRecursively fuel octokit ow rp n depth dryRun verbose w = Some (res, w', out)"
  shows "\<exists>evs. calls w' = calls w @ evs \<and>
    single_listing (map fst evs) \<and>
    (honours_page_size octokit \<longrightarrow>
       gets evs \<le> 1 + 101 * listings evs \<and>
       (\<forall>r. res = Inr r \<longrightarrow> processed r \<le> 1 + 100 * listings evs))"
  using processIssueRecursively_visits [OF assms]
  unfolding visits_within_def by auto

theorem one_page_of_sub_issues_witness:
  "honours_page_size (flat_store 101) \<and>
   map_option (\<lambda>(r, w, out). (r, calls w))
     (processIssueRecursively (Suc (Suc 0)) (flat_store 101) (Some ''o'') ''r'' 1 0 True False
        (start ())) =
   Some (Inr \<lparr>processed = 1, closed = 1\<rparr>,
     [(IssuesGet (Some ''o'') ''r'' 1, None), (ListSubIssues (Some ''o'') ''r'' 1 100, None)] @
     map (\<lambda>i. (IssuesGet (Some ''o'') ''r'' (int i), None)) [2..<102] @
     [(IssuesGet (Some ''o'') ''r'' 1, None)]) \<and>
   single_listing (map fst
     ([(IssuesGet (Some ''o'') ''r'' 1, None), (ListSubIssues (Some ''o'') ''r'' 1 100, None)] @
      map (\<lambda>i. (IssuesGet (Some ''o'') ''r'' (int i), None)) [2..<102] @
      [(IssuesGet (Some ''o'') ''r'' 1, None :: js_error option)])) \<and>
   gets
     ([(IssuesGet (Some ''o'') ''r'' 1, None), (ListSubIssues (Some ''o'') ''r'' 1 100, None)] @
      map (\<lambda>i. (IssuesGet (Some ''o'') ''r'' (int i), None)) [2..<102] @
      [(IssuesGet (Some ''o'') ''r'' 1, None)]) = 102 \<and>
   listings
     ([(IssuesGet (Some ''o'') ''r'' 1, None), (ListSubIssues (Some ''o'') ''r'' 1 100, None)] @
      map (\<lambda>i. (IssuesGet (Some ''o'') ''r'' (int i), None)) [2..<102] @
      [(IssuesGet (Some ''o'') ''r'' 1, None)]) = 1"
proof -
  let ?run = "processIssueRecursively (Suc (Suc 0)) (flat_store 101) (Some ''o'') ''r'' 1 0
      True False (start ())"
  let ?log = "[(IssuesGet (Some ''o'') ''r'' 1, None), (ListSubIssues (Some ''o'') ''r'' 1 100, None)] @
     map (\<lambda>i. (IssuesGet (Some ''o'') ''r'' (int i), None)) [2..<102] @
     [(IssuesGet (Some ''o'') ''r'' 1, None :: js_error option)]"
  have evaluated: "map_option (\<lambda>(r, w, out). (r, calls w)) ?run =
      Some (Inr \<lparr>processed = 1, closed = 1\<rparr>, ?log)"
    by code_simp
  then obtain w' out where run: "?run = Some (Inr \<lparr>processed = 1, closed = 1\<rparr>, w', out)"
    and log: "calls w' = ?log"
    by (cases ?run) auto
  have gets: "gets ?log = 102"
    by code_simp
  have listings: "listings ?log = 1"
    by code_simp
  from one_page_of_sub_issues [OF run] obtain evs where
    evs: "calls w' = calls (start ()) @ evs" and shape: "single_listing (map fst evs)"
    by blast
  have "calls (start ()) = ([] :: event list)"
    by (simp add: start_def)
  with evs have "calls w' = evs" by simp
  then have "evs = calls w'" by (rule sym)
  then have "evs = ?log" using log by (rule trans)
  with shape have "single_listing (map fst ?log)" by (simp only:)
  with evaluated gets listings flat_store_honours [of 101] show ?thesis
    by blast
qed

end
